theory Spec2Isabelle
  imports Main "HOL-Library.AList"
begin

section \<open>Data model of the account ledger (wallet/account.ts)\<close>

text \<open>A \<open>Buffer\<close> is a byte string; \<open>BufferMap\<close> and \<open>BufferSet\<close> compare keys by content.\<close>

type_synonym buffer = string

text \<open>
  A \<open>BufferSet\<close> (and a JavaScript \<open>Set\<close>) keeps its members in insertion order without
  duplicates: a list, where \<open>add\<close> appends a new member and \<open>delete\<close> removes it.
\<close>

definition bufferSet_add :: "buffer \<Rightarrow> buffer list \<Rightarrow> buffer list" where
  "bufferSet_add h xs = (if h \<in> set xs then xs else xs @ [h])"

definition bufferSet_delete :: "buffer \<Rightarrow> buffer list \<Rightarrow> buffer list" where
  "bufferSet_delete h xs = removeAll h xs"

text \<open>
  A \<open>BufferMap\<close> (and a JavaScript \<open>Map\<close>) is an association list in insertion order:
  \<open>get\<close> is \<open>map_of\<close>, \<open>set\<close> is \<open>AList.update\<close> (an existing key keeps its place, a new
  one goes last), \<open>delete\<close> is \<open>AList.delete\<close>, \<open>clear\<close> gives \<open>[]\<close>.
\<close>

text \<open>
  Modelled from the spec: the \<open>Transaction\<close> primitive (primitives/transaction.ts) is an
  opaque value object exposing its hash identity, the nullifier of each of its spends and
  the merkle hash of each of its notes; \<open>equals\<close> compares the whole payload, which is
  equality of the record. \<open>txRest\<close> stands for the bytes of the payload that none of the
  three accessors reads.
\<close>

record transaction =
  unsignedHash :: buffer
  spends :: "buffer list"
  txNotes :: "buffer list"
  txRest :: buffer

text \<open>\<open>DecryptedNoteValue\<close> (database/decryptedNoteValue.ts), with the fields account.ts uses.\<close>

record decryptedNoteValue =
  accountId :: string
  nullifierHash :: "buffer option"
  noteIndex :: "nat option"
  serializedNote :: buffer
  spent :: bool
  transactionHash :: buffer

text \<open>The value type of \<open>Account.transactions\<close>.\<close>

record transactionValue =
  transaction :: transaction
  blockHash :: "buffer option"
  sequence :: "int option"
  submittedSequence :: "int option"

text \<open>An element of the \<open>decryptedNotes\<close> argument of \<open>syncTransaction\<close>.\<close>

record decryptedNoteInput =
  in_noteIndex :: "nat option"
  in_nullifier :: "buffer option"
  merkleHash :: buffer
  forSpender :: bool
  in_serializedNote :: buffer

text \<open>
  Modelled from the spec: \<open>SyncTransactionParams\<close> (wallet/wallet.ts) is the status payload,
  one of \<open>{sequence, blockHash}\<close> (Mined), \<open>{submittedSequence}\<close> (Pending) and \<open>{}\<close> (Removed).
\<close>

datatype syncTransactionParams =
  Mined buffer int
  | Pending int
  | Removed

fun params_blockHash :: "syncTransactionParams \<Rightarrow> buffer option" where
  "params_blockHash (Mined b s) = Some b"
| "params_blockHash _ = None"

fun params_sequence :: "syncTransactionParams \<Rightarrow> int option" where
  "params_sequence (Mined b s) = Some s"
| "params_sequence _ = None"

fun params_submittedSequence :: "syncTransactionParams \<Rightarrow> int option" where
  "params_submittedSequence (Pending s) = Some s"
| "params_submittedSequence _ = None"

text \<open>
  The failures of \<open>Assert\<close>, one constructor for each assertion of account.ts. An operation
  that fails returns the error and no account: the call is abandoned where the assertion
  throws, and with it the store transaction that \<open>withTransaction\<close> opened for it.
\<close>

datatype error =
  TransactionUndefined buffer
  | SequenceRequired
  | NullifierWithoutNote
  | NoteUndefined

subsection \<open>The persisted store\<close>

text \<open>
  Modelled from the spec: \<open>AccountsDB\<close> (database/accountsdb.ts) is a durable key-value
  store with point writes and reads, bulk replacement and loading of each table, and one
  unconfirmed balance for the account; a point write or a replacement is visible to every
  later read. Every call that writes to the store is recorded, in order.
\<close>

datatype dbWrite =
  SaveDecryptedNote buffer decryptedNoteValue
  | DeleteDecryptedNote buffer
  | SaveNullifierNoteHash buffer buffer
  | DeleteNullifier buffer
  | SaveTransaction buffer transactionValue
  | DeleteTransaction buffer
  | SaveUnconfirmedBalance int
  | ReplaceDecryptedNotes
  | ReplaceNullifierToNoteHash
  | ReplaceTransactions

record accountsDb =
  storedDecryptedNotes :: "(buffer \<times> decryptedNoteValue) list"
  storedNullifierToNoteHash :: "(buffer \<times> buffer) list"
  storedTransactions :: "(buffer \<times> transactionValue) list"
  storedUnconfirmedBalance :: int
  writes :: "dbWrite list"

text \<open>
  Modelled from the spec: the point writes and reads of \<open>AccountsDB\<close>, and the replacement
  of a table by the entries of a map.
\<close>

definition db_saveUnconfirmedBalance :: "accountsDb \<Rightarrow> int \<Rightarrow> accountsDb" where
  "db_saveUnconfirmedBalance d b =
     d\<lparr>storedUnconfirmedBalance := b, writes := writes d @ [SaveUnconfirmedBalance b]\<rparr>"

definition db_getUnconfirmedBalance :: "accountsDb \<Rightarrow> int" where
  "db_getUnconfirmedBalance d = storedUnconfirmedBalance d"

definition db_saveDecryptedNote :: "accountsDb \<Rightarrow> buffer \<Rightarrow> decryptedNoteValue \<Rightarrow> accountsDb" where
  "db_saveDecryptedNote d h n =
     d\<lparr>storedDecryptedNotes := AList.update h n (storedDecryptedNotes d),
       writes := writes d @ [SaveDecryptedNote h n]\<rparr>"

definition db_deleteDecryptedNote :: "accountsDb \<Rightarrow> buffer \<Rightarrow> accountsDb" where
  "db_deleteDecryptedNote d h =
     d\<lparr>storedDecryptedNotes := AList.delete h (storedDecryptedNotes d),
       writes := writes d @ [DeleteDecryptedNote h]\<rparr>"

definition db_saveNullifierNoteHash :: "accountsDb \<Rightarrow> buffer \<Rightarrow> buffer \<Rightarrow> accountsDb" where
  "db_saveNullifierNoteHash d n h =
     d\<lparr>storedNullifierToNoteHash := AList.update n h (storedNullifierToNoteHash d),
       writes := writes d @ [SaveNullifierNoteHash n h]\<rparr>"

definition db_deleteNullifier :: "accountsDb \<Rightarrow> buffer \<Rightarrow> accountsDb" where
  "db_deleteNullifier d n =
     d\<lparr>storedNullifierToNoteHash := AList.delete n (storedNullifierToNoteHash d),
       writes := writes d @ [DeleteNullifier n]\<rparr>"

definition db_saveTransaction :: "accountsDb \<Rightarrow> buffer \<Rightarrow> transactionValue \<Rightarrow> accountsDb" where
  "db_saveTransaction d h v =
     d\<lparr>storedTransactions := AList.update h v (storedTransactions d),
       writes := writes d @ [SaveTransaction h v]\<rparr>"

definition db_deleteTransaction :: "accountsDb \<Rightarrow> buffer \<Rightarrow> accountsDb" where
  "db_deleteTransaction d h =
     d\<lparr>storedTransactions := AList.delete h (storedTransactions d),
       writes := writes d @ [DeleteTransaction h]\<rparr>"

definition db_replaceDecryptedNotes ::
  "accountsDb \<Rightarrow> (buffer \<times> decryptedNoteValue) list \<Rightarrow> accountsDb" where
  "db_replaceDecryptedNotes d m =
     d\<lparr>storedDecryptedNotes := m, writes := writes d @ [ReplaceDecryptedNotes]\<rparr>"

definition db_replaceNullifierToNoteHash ::
  "accountsDb \<Rightarrow> (buffer \<times> buffer) list \<Rightarrow> accountsDb" where
  "db_replaceNullifierToNoteHash d m =
     d\<lparr>storedNullifierToNoteHash := m, writes := writes d @ [ReplaceNullifierToNoteHash]\<rparr>"

definition db_replaceTransactions ::
  "accountsDb \<Rightarrow> (buffer \<times> transactionValue) list \<Rightarrow> accountsDb" where
  "db_replaceTransactions d m =
     d\<lparr>storedTransactions := m, writes := writes d @ [ReplaceTransactions]\<rparr>"

text \<open>
  Modelled from the spec: \<open>loadNullifierToNoteHash\<close> and \<open>loadTransactions\<close> set every stored
  entry in the given map; \<open>loadDecryptedNotes\<close> yields the stored notes one by one.
\<close>

definition db_loadInto :: "(buffer \<times> 'v) list \<Rightarrow> (buffer \<times> 'v) list \<Rightarrow> (buffer \<times> 'v) list" where
  "db_loadInto stored m = fold (\<lambda>(k, v). AList.update k v) stored m"

subsection \<open>The account\<close>

text \<open>
  The fields of \<open>Account\<close> that the ledger operations read and write. The key material and
  the names take no part in them.
\<close>

record account =
  acc_id :: string
  decryptedNotes :: "(buffer \<times> decryptedNoteValue) list"
  nullifierToNoteHash :: "(buffer \<times> buffer) list"
  transactions :: "(buffer \<times> transactionValue) list"
  noteHashesBySequence :: "(int \<times> buffer list) list"
  nonChainNoteHashes :: "buffer list"
  accountsDb :: accountsDb

text \<open>The constructor: every index starts empty.\<close>

definition newAccount :: "string \<Rightarrow> accountsDb \<Rightarrow> account" where
  "newAccount i d =
     \<lparr>acc_id = i, decryptedNotes = [], nullifierToNoteHash = [], transactions = [],
      noteHashesBySequence = [], nonChainNoteHashes = [], accountsDb = d\<rparr>"

definition emptyDb :: accountsDb where
  "emptyDb =
     \<lparr>storedDecryptedNotes = [], storedNullifierToNoteHash = [], storedTransactions = [],
      storedUnconfirmedBalance = 0, writes = []\<rparr>"

section \<open>Operations\<close>

text \<open>
  \<open>new Note(serializedNote).value()\<close> decodes the amount from the note's bytes
  (primitives/note.ts); the decoder is the parameter \<open>nv\<close> of every operation that reads a
  value.
\<close>

type_synonym noteValue = "buffer \<Rightarrow> int"

definition getUnconfirmedBalance :: "account \<Rightarrow> int" where
  "getUnconfirmedBalance a = db_getUnconfirmedBalance (accountsDb a)"

definition saveUnconfirmedBalance :: "account \<Rightarrow> int \<Rightarrow> account" where
  "saveUnconfirmedBalance a b = a\<lparr>accountsDb := db_saveUnconfirmedBalance (accountsDb a) b\<rparr>"

definition getDecryptedNote :: "account \<Rightarrow> buffer \<Rightarrow> decryptedNoteValue option" where
  "getDecryptedNote a h = map_of (decryptedNotes a) h"

definition getNoteHash :: "account \<Rightarrow> buffer \<Rightarrow> buffer option" where
  "getNoteHash a n = map_of (nullifierToNoteHash a) n"

definition getTransaction :: "account \<Rightarrow> buffer \<Rightarrow> transactionValue option" where
  "getTransaction a h = map_of (transactions a) h"

text \<open>A \<open>Buffer\<close> is an object, so \<open>if (blockHash)\<close> tests that it is not null.\<close>

definition saveDecryptedNoteSequence :: "account \<Rightarrow> buffer \<Rightarrow> buffer \<Rightarrow> error + account" where
  "saveDecryptedNoteSequence a th nh =
     (case map_of (transactions a) th of
        None \<Rightarrow> Inl (TransactionUndefined th)
      | Some t \<Rightarrow>
          (case blockHash t of
             Some b \<Rightarrow>
               (case sequence t of
                  None \<Rightarrow> Inl SequenceRequired
                | Some s \<Rightarrow>
                    Inr (a\<lparr>noteHashesBySequence :=
                             AList.update s
                               (bufferSet_add nh
                                  (case map_of (noteHashesBySequence a) s of
                                     None \<Rightarrow> [] | Some hs \<Rightarrow> hs))
                               (noteHashesBySequence a),
                           nonChainNoteHashes := bufferSet_delete nh (nonChainNoteHashes a)\<rparr>))
           | None \<Rightarrow> Inr (a\<lparr>nonChainNoteHashes := bufferSet_add nh (nonChainNoteHashes a)\<rparr>)))"

text \<open>
  The first step of \<open>updateDecryptedNote\<close>: the balance is read and saved again when there
  is no stored note or the spent flag differs from the stored one.
\<close>

definition adjustBalance :: "noteValue \<Rightarrow> account \<Rightarrow> buffer \<Rightarrow> decryptedNoteValue \<Rightarrow> account" where
  "adjustBalance nv a nh n =
     (let existingNote = map_of (decryptedNotes a) nh in
      if (case existingNote of None \<Rightarrow> True | Some e \<Rightarrow> spent e \<noteq> spent n) then
        (let v = nv (serializedNote n);
             currentUnconfirmedBalance = getUnconfirmedBalance a
         in if spent n then saveUnconfirmedBalance a (currentUnconfirmedBalance - v)
            else saveUnconfirmedBalance a (currentUnconfirmedBalance + v))
      else a)"

definition updateDecryptedNote ::
  "noteValue \<Rightarrow> account \<Rightarrow> buffer \<Rightarrow> decryptedNoteValue \<Rightarrow> error + account" where
  "updateDecryptedNote nv a nh n =
     (case saveDecryptedNoteSequence (adjustBalance nv a nh n) (transactionHash n) nh of
        Inl e \<Rightarrow> Inl e
      | Inr a' \<Rightarrow>
          Inr (a'\<lparr>decryptedNotes := AList.update nh n (decryptedNotes a'),
                 accountsDb := db_saveDecryptedNote (accountsDb a') nh n\<rparr>))"

definition updateTransaction :: "account \<Rightarrow> buffer \<Rightarrow> transactionValue \<Rightarrow> account" where
  "updateTransaction a h v =
     a\<lparr>transactions := AList.update h v (transactions a),
       accountsDb := db_saveTransaction (accountsDb a) h v\<rparr>"

definition updateNullifierNoteHash :: "account \<Rightarrow> buffer \<Rightarrow> buffer \<Rightarrow> account" where
  "updateNullifierNoteHash a n h =
     a\<lparr>nullifierToNoteHash := AList.update n h (nullifierToNoteHash a),
       accountsDb := db_saveNullifierNoteHash (accountsDb a) n h\<rparr>"

definition deleteNullifier :: "account \<Rightarrow> buffer \<Rightarrow> account" where
  "deleteNullifier a n =
     a\<lparr>nullifierToNoteHash := AList.delete n (nullifierToNoteHash a),
       accountsDb := db_deleteNullifier (accountsDb a) n\<rparr>"

fun bulkUpdateDecryptedNotes ::
  "noteValue \<Rightarrow> account \<Rightarrow> buffer \<Rightarrow> decryptedNoteInput list \<Rightarrow> error + account" where
  "bulkUpdateDecryptedNotes nv a th [] = Inr a"
| "bulkUpdateDecryptedNotes nv a th (d # ds) =
     (if \<not> forSpender d then
        (let a1 = (case in_nullifier d of
                     Some n \<Rightarrow> updateNullifierNoteHash a n (merkleHash d)
                   | None \<Rightarrow> a)
         in case updateDecryptedNote nv a1 (merkleHash d)
                   \<lparr>accountId = acc_id a1, nullifierHash = in_nullifier d,
                    noteIndex = in_noteIndex d, serializedNote = in_serializedNote d,
                    spent = False, transactionHash = th\<rparr> of
              Inl e \<Rightarrow> Inl e
            | Inr a2 \<Rightarrow> bulkUpdateDecryptedNotes nv a2 th ds)
      else bulkUpdateDecryptedNotes nv a th ds)"

text \<open>The loop of \<open>processTransactionSpends\<close> over the nullifiers of \<open>transaction.spends()\<close>.\<close>

fun processSpends :: "noteValue \<Rightarrow> account \<Rightarrow> buffer list \<Rightarrow> bool \<Rightarrow> error + account" where
  "processSpends nv a [] isRemovingTransaction = Inr a"
| "processSpends nv a (nullifier # rest) isRemovingTransaction =
     (case getNoteHash a nullifier of
        Some noteHash \<Rightarrow>
          (case getDecryptedNote a noteHash of
             None \<Rightarrow> Inl NullifierWithoutNote
           | Some decryptedNote \<Rightarrow>
               (case updateDecryptedNote nv a noteHash
                       (decryptedNote\<lparr>spent := \<not> isRemovingTransaction\<rparr>) of
                  Inl e \<Rightarrow> Inl e
                | Inr a' \<Rightarrow> processSpends nv a' rest isRemovingTransaction))
      | None \<Rightarrow> processSpends nv a rest isRemovingTransaction)"

definition processTransactionSpends ::
  "noteValue \<Rightarrow> account \<Rightarrow> transaction \<Rightarrow> bool \<Rightarrow> error + account" where
  "processTransactionSpends nv a t isRemovingTransaction =
     processSpends nv a (spends t) isRemovingTransaction"

text \<open>The submitted sequence after the merge with a stored record.\<close>

definition mergedSubmittedSequence ::
  "account \<Rightarrow> transaction \<Rightarrow> syncTransactionParams \<Rightarrow> int option" where
  "mergedSubmittedSequence a t params =
     (case map_of (transactions a) (unsignedHash t) of
        Some record \<Rightarrow> submittedSequence record
      | None \<Rightarrow> params_submittedSequence params)"

definition shouldUpdateTransaction ::
  "account \<Rightarrow> transaction \<Rightarrow> syncTransactionParams \<Rightarrow> bool" where
  "shouldUpdateTransaction a t params =
     (case map_of (transactions a) (unsignedHash t) of
        None \<Rightarrow> True
      | Some record \<Rightarrow>
          transaction record \<noteq> t \<or> blockHash record \<noteq> params_blockHash params)"

definition isRemovingTransaction ::
  "account \<Rightarrow> transaction \<Rightarrow> syncTransactionParams \<Rightarrow> bool" where
  "isRemovingTransaction a t params =
     (mergedSubmittedSequence a t params = None \<and> params_blockHash params = None)"

text \<open>The first step of \<open>syncTransaction\<close>: the record is written only if it changed.\<close>

definition syncTransactionRecord ::
  "account \<Rightarrow> transaction \<Rightarrow> syncTransactionParams \<Rightarrow> account" where
  "syncTransactionRecord a t params =
     (if shouldUpdateTransaction a t params then
        updateTransaction a (unsignedHash t)
          \<lparr>transaction = t, blockHash = params_blockHash params,
           sequence = params_sequence params,
           submittedSequence = mergedSubmittedSequence a t params\<rparr>
      else a)"

definition syncTransaction ::
  "noteValue \<Rightarrow> account \<Rightarrow> transaction \<Rightarrow> decryptedNoteInput list \<Rightarrow> syncTransactionParams
   \<Rightarrow> error + account" where
  "syncTransaction nv a t ds params =
     (case bulkUpdateDecryptedNotes nv (syncTransactionRecord a t params) (unsignedHash t) ds of
        Inl e \<Rightarrow> Inl e
      | Inr a2 \<Rightarrow> processTransactionSpends nv a2 t (isRemovingTransaction a t params))"

text \<open>\<open>record.sequence\<close> is tested for truth: a sequence that is null or 0 skips the bucket.\<close>

definition deleteDecryptedNote :: "noteValue \<Rightarrow> account \<Rightarrow> buffer \<Rightarrow> buffer \<Rightarrow> account" where
  "deleteDecryptedNote nv a nh th =
     (let a1 = (case map_of (decryptedNotes a) nh of
                  Some existingNote \<Rightarrow>
                    (let v = nv (serializedNote existingNote);
                         currentUnconfirmedBalance = getUnconfirmedBalance a
                     in if spent existingNote
                        then saveUnconfirmedBalance a (currentUnconfirmedBalance + v)
                        else saveUnconfirmedBalance a (currentUnconfirmedBalance - v))
                | None \<Rightarrow> a);
          a2 = (case map_of (transactions a1) th of
                  Some record \<Rightarrow>
                    (case sequence record of
                       Some s \<Rightarrow>
                         (if s \<noteq> 0 then
                            (case map_of (noteHashesBySequence a1) s of
                               Some noteHashes \<Rightarrow>
                                 a1\<lparr>noteHashesBySequence :=
                                      AList.update s (bufferSet_delete nh noteHashes)
                                        (noteHashesBySequence a1)\<rparr>
                             | None \<Rightarrow> a1)
                          else a1)
                     | None \<Rightarrow> a1)
                | None \<Rightarrow> a1)
      in a2\<lparr>nonChainNoteHashes := bufferSet_delete nh (nonChainNoteHashes a2),
            decryptedNotes := AList.delete nh (decryptedNotes a2),
            accountsDb := db_deleteDecryptedNote (accountsDb a2) nh\<rparr>)"

text \<open>The first loop of \<open>deleteTransaction\<close>, over the merkle hashes of \<open>transaction.notes()\<close>.\<close>

fun deleteTransactionNotes :: "noteValue \<Rightarrow> account \<Rightarrow> buffer \<Rightarrow> buffer list \<Rightarrow> account" where
  "deleteTransactionNotes nv a h [] = a"
| "deleteTransactionNotes nv a h (m # ms) =
     (case getDecryptedNote a m of
        Some decryptedNote \<Rightarrow>
          (let a1 = deleteDecryptedNote nv a m h;
               a2 = (case nullifierHash decryptedNote of
                       Some nullifier \<Rightarrow> deleteNullifier a1 nullifier
                     | None \<Rightarrow> a1)
           in deleteTransactionNotes nv a2 h ms)
      | None \<Rightarrow> deleteTransactionNotes nv a h ms)"

text \<open>The second loop of \<open>deleteTransaction\<close>, over the nullifiers of \<open>transaction.spends()\<close>.\<close>

fun deleteTransactionSpends :: "noteValue \<Rightarrow> account \<Rightarrow> buffer list \<Rightarrow> error + account" where
  "deleteTransactionSpends nv a [] = Inr a"
| "deleteTransactionSpends nv a (nullifier # rest) =
     (case getNoteHash a nullifier of
        Some noteHash \<Rightarrow>
          (case getDecryptedNote a noteHash of
             None \<Rightarrow> Inl NullifierWithoutNote
           | Some decryptedNote \<Rightarrow>
               (case updateDecryptedNote nv a noteHash (decryptedNote\<lparr>spent := False\<rparr>) of
                  Inl e \<Rightarrow> Inl e
                | Inr a' \<Rightarrow> deleteTransactionSpends nv a' rest))
      | None \<Rightarrow> deleteTransactionSpends nv a rest)"

definition deleteTransaction ::
  "noteValue \<Rightarrow> account \<Rightarrow> buffer \<Rightarrow> transaction \<Rightarrow> error + account" where
  "deleteTransaction nv a h t =
     (case deleteTransactionSpends nv (deleteTransactionNotes nv a h (txNotes t)) (spends t) of
        Inl e \<Rightarrow> Inl e
      | Inr a' \<Rightarrow>
          Inr (a'\<lparr>transactions := AList.delete h (transactions a'),
                 accountsDb := db_deleteTransaction (accountsDb a') h\<rparr>))"

subsection \<open>Balances\<close>

text \<open>One pass over a set of note hashes: the value of each unspent note is subtracted.\<close>

fun subtractUnspent :: "noteValue \<Rightarrow> account \<Rightarrow> buffer list \<Rightarrow> int \<Rightarrow> error + int" where
  "subtractUnspent nv a [] confirmed = Inr confirmed"
| "subtractUnspent nv a (h # hs) confirmed =
     (case map_of (decryptedNotes a) h of
        None \<Rightarrow> Inl NoteUndefined
      | Some note \<Rightarrow>
          subtractUnspent nv a hs
            (if \<not> spent note then confirmed - nv (serializedNote note) else confirmed))"

text \<open>The loop \<open>for (let i = unconfirmedSequenceStart; i < headSequence; i++)\<close>.\<close>

function scanSequences :: "noteValue \<Rightarrow> account \<Rightarrow> int \<Rightarrow> int \<Rightarrow> int \<Rightarrow> error + int" where
  "scanSequences nv a i headSequence confirmed =
     (if i < headSequence then
        (case map_of (noteHashesBySequence a) i of
           Some noteHashes \<Rightarrow>
             (case subtractUnspent nv a noteHashes confirmed of
                Inl e \<Rightarrow> Inl e
              | Inr c \<Rightarrow> scanSequences nv a (i + 1) headSequence c)
         | None \<Rightarrow> scanSequences nv a (i + 1) headSequence confirmed)
      else Inr confirmed)"
  by pat_completeness auto
termination
  by (relation "measure (\<lambda>(nv, a, i, headSequence, confirmed). nat (headSequence - i))") auto

text \<open>The result is the pair (unconfirmed, confirmed).\<close>

definition getBalance :: "noteValue \<Rightarrow> account \<Rightarrow> int \<Rightarrow> int \<Rightarrow> error + (int \<times> int)" where
  "getBalance nv a unconfirmedSequenceStart headSequence =
     (let unconfirmed = getUnconfirmedBalance a in
      case scanSequences nv a unconfirmedSequenceStart headSequence unconfirmed of
        Inl e \<Rightarrow> Inl e
      | Inr c \<Rightarrow>
          (case subtractUnspent nv a (nonChainNoteHashes a) c of
             Inl e \<Rightarrow> Inl e
           | Inr confirmed \<Rightarrow> Inr (unconfirmed, confirmed)))"

subsection \<open>Loading, saving, resetting\<close>

text \<open>The loop of \<open>loadDecryptedNotesAndBalance\<close> over the stored notes.\<close>

fun loadNotesLoop ::
  "noteValue \<Rightarrow> account \<Rightarrow> (buffer \<times> decryptedNoteValue) list \<Rightarrow> int \<Rightarrow> error + (account \<times> int)" where
  "loadNotesLoop nv a [] unconfirmedBalance = Inr (a, unconfirmedBalance)"
| "loadNotesLoop nv a ((hash, decryptedNote) # rest) unconfirmedBalance =
     (if accountId decryptedNote = acc_id a then
        (let a1 = a\<lparr>decryptedNotes := AList.update hash decryptedNote (decryptedNotes a)\<rparr>;
             b = (if \<not> spent decryptedNote
                  then unconfirmedBalance + nv (serializedNote decryptedNote)
                  else unconfirmedBalance)
         in case saveDecryptedNoteSequence a1 (transactionHash decryptedNote) hash of
              Inl e \<Rightarrow> Inl e
            | Inr a2 \<Rightarrow> loadNotesLoop nv a2 rest b)
      else loadNotesLoop nv a rest unconfirmedBalance)"

definition loadDecryptedNotesAndBalance :: "noteValue \<Rightarrow> account \<Rightarrow> error + account" where
  "loadDecryptedNotesAndBalance nv a =
     (case loadNotesLoop nv a (storedDecryptedNotes (accountsDb a)) 0 of
        Inl e \<Rightarrow> Inl e
      | Inr (a', unconfirmedBalance) \<Rightarrow> Inr (saveUnconfirmedBalance a' unconfirmedBalance))"

definition load :: "noteValue \<Rightarrow> account \<Rightarrow> error + account" where
  "load nv a =
     loadDecryptedNotesAndBalance nv
       (a\<lparr>nullifierToNoteHash :=
             db_loadInto (storedNullifierToNoteHash (accountsDb a)) (nullifierToNoteHash a),
           transactions :=
             db_loadInto (storedTransactions (accountsDb a)) (transactions a)\<rparr>)"

definition save :: "account \<Rightarrow> account" where
  "save a =
     a\<lparr>accountsDb :=
         db_replaceTransactions
           (db_replaceNullifierToNoteHash
              (db_replaceDecryptedNotes (accountsDb a) (decryptedNotes a))
              (nullifierToNoteHash a))
           (transactions a)\<rparr>"

definition reset :: "account \<Rightarrow> account" where
  "reset a =
     saveUnconfirmedBalance
       (a\<lparr>decryptedNotes := [], nullifierToNoteHash := [], transactions := []\<rparr>) 0"

section \<open>Quantities the properties are stated with\<close>

text \<open>
  The change \<open>updateDecryptedNote\<close> makes to the unconfirmed balance, given the stored note
  (if any) and the new state.
\<close>

definition balanceDelta :: "noteValue \<Rightarrow> decryptedNoteValue option \<Rightarrow> decryptedNoteValue \<Rightarrow> int" where
  "balanceDelta nv existing n =
     (if (case existing of None \<Rightarrow> True | Some e \<Rightarrow> spent e \<noteq> spent n)
      then (if spent n then - nv (serializedNote n) else nv (serializedNote n)) else 0)"

text \<open>The kinds of store writes.\<close>

definition isSaveTransaction :: "dbWrite \<Rightarrow> bool" where
  "isSaveTransaction w = (case w of SaveTransaction h v \<Rightarrow> True | _ \<Rightarrow> False)"

definition isSaveUnconfirmedBalance :: "dbWrite \<Rightarrow> bool" where
  "isSaveUnconfirmedBalance w = (case w of SaveUnconfirmedBalance b \<Rightarrow> True | _ \<Rightarrow> False)"


subsection \<open>A concrete scenario\<close>

text \<open>
  A decoder for the examples: the amount of a note is the length of its bytes. A receive
  transaction \<open>tx1\<close> with one note \<open>n1\<close> of value 5 and nullifier \<open>x1\<close>, and a transaction
  \<open>tx2\<close> that spends \<open>x1\<close>.
\<close>

definition sampleValue :: noteValue where
  "sampleValue b = int (length b)"

definition tx1 :: transaction where
  "tx1 = \<lparr>unsignedHash = ''t1'', spends = [], txNotes = [''n1''], txRest = []\<rparr>"

definition tx2 :: transaction where
  "tx2 = \<lparr>unsignedHash = ''t2'', spends = [''x1''], txNotes = [], txRest = []\<rparr>"

definition in1 :: decryptedNoteInput where
  "in1 = \<lparr>in_noteIndex = Some 0, in_nullifier = Some ''x1'', merkleHash = ''n1'',
          forSpender = False, in_serializedNote = ''vvvvv''\<rparr>"

definition note1 :: decryptedNoteValue where
  "note1 = \<lparr>accountId = ''acct'', nullifierHash = Some ''x1'', noteIndex = Some 0,
            serializedNote = ''vvvvv'', spent = False, transactionHash = ''t1''\<rparr>"

definition acct0 :: account where
  "acct0 = newAccount ''acct'' emptyDb"

text \<open>The account of a run that did not abort (the empty account otherwise).\<close>

definition resultAccount :: "error + account \<Rightarrow> account" where
  "resultAccount r = (case r of Inr a \<Rightarrow> a | Inl e \<Rightarrow> newAccount [] emptyDb)"

text \<open>\<open>tx1\<close> is mined at sequence 10 in block \<open>b1\<close>.\<close>

definition acctMined :: account where
  "acctMined = resultAccount (syncTransaction sampleValue acct0 tx1 [in1] (Mined ''b1'' 10))"

text \<open>Only the record of \<open>tx1\<close> is stored, and no note yet.\<close>

definition acctTxOnly :: account where
  "acctTxOnly = updateTransaction acct0 ''t1''
     \<lparr>transaction = tx1, blockHash = Some ''b1'', sequence = Some 10, submittedSequence = None\<rparr>"


subsection \<open>The indices and the balance, as the specification words them\<close>

text \<open>The note hashes of all buckets of the Sequence Index.\<close>

definition bucketedNoteHashes :: "account \<Rightarrow> buffer list" where
  "bucketedNoteHashes a = concat (map snd (noteHashesBySequence a))"

text \<open>
  The Non-chain Note Set is disjoint from the buckets of the Sequence Index, and together
  they hold exactly the hashes of the decrypted-note index.
\<close>

definition indexPartition :: "account \<Rightarrow> bool" where
  "indexPartition a =
     (list_all (\<lambda>h. h \<notin> set (bucketedNoteHashes a)) (nonChainNoteHashes a) \<and>
      set (nonChainNoteHashes a) \<union> set (bucketedNoteHashes a) = set (map fst (decryptedNotes a)))"

text \<open>The sequence of the transaction that owns a note.\<close>

definition owningSequence :: "account \<Rightarrow> decryptedNoteValue \<Rightarrow> int option" where
  "owningSequence a n =
     (case map_of (transactions a) (transactionHash n) of None \<Rightarrow> None | Some r \<Rightarrow> sequence r)"

text \<open>The total value of the unspent notes that satisfy \<open>P\<close>.\<close>

definition unspentValue ::
  "noteValue \<Rightarrow> account \<Rightarrow> (buffer \<Rightarrow> decryptedNoteValue \<Rightarrow> bool) \<Rightarrow> int" where
  "unspentValue nv a P =
     sum_list (map (\<lambda>(h, n). nv (serializedNote n))
        (filter (\<lambda>(h, n). \<not> spent n \<and> P h n) (decryptedNotes a)))"

text \<open>
  The confirmed balance in the words of the specification: the unconfirmed balance, minus
  the unspent notes whose owning transaction has its sequence in the given range, minus the
  unspent notes of the Non-chain Note Set.
\<close>

definition specConfirmed :: "noteValue \<Rightarrow> account \<Rightarrow> int \<Rightarrow> int \<Rightarrow> int" where
  "specConfirmed nv a confirmationStartSequence headSequence =
     getUnconfirmedBalance a
       - unspentValue nv a (\<lambda>h n. case owningSequence a n of
                                    None \<Rightarrow> False
                                  | Some s \<Rightarrow> confirmationStartSequence \<le> s \<and> s < headSequence)
       - unspentValue nv a (\<lambda>h n. h \<in> set (nonChainNoteHashes a))"

text \<open>The note hashes that the nullifiers \<open>ns\<close> resolve to in the Nullifier Index.\<close>

definition resolvedNotes :: "account \<Rightarrow> buffer list \<Rightarrow> buffer set" where
  "resolvedNotes a ns = set (List.map_filter (getNoteHash a) ns)"

text \<open>The value of a stored note if it is spent, and 0 otherwise.\<close>

definition spentValueOf :: "noteValue \<Rightarrow> account \<Rightarrow> buffer \<Rightarrow> int" where
  "spentValueOf nv a h =
     (case getDecryptedNote a h of
        Some d \<Rightarrow> if spent d then nv (serializedNote d) else 0
      | None \<Rightarrow> 0)"

subsection \<open>More accounts of the scenario\<close>

text \<open>After \<open>acctMined\<close>, \<open>tx1\<close> is synced again with the Removed status.\<close>

definition acctRemoved :: account where
  "acctRemoved = resultAccount (syncTransaction sampleValue acctMined tx1 [in1] Removed)"

text \<open>After \<open>acctMined\<close>, the spending transaction \<open>tx2\<close> is mined at sequence 11.\<close>

definition acctSpent :: account where
  "acctSpent = resultAccount (syncTransaction sampleValue acctMined tx2 [] (Mined ''b2'' 11))"

text \<open>After \<open>acctMined\<close>, \<open>tx2\<close> is synced as Pending, and then with the Removed status.\<close>

definition acctPendingSpent :: account where
  "acctPendingSpent = resultAccount (syncTransaction sampleValue acctMined tx2 [] (Pending 7))"

definition acctPendingRemoved :: account where
  "acctPendingRemoved =
     resultAccount (syncTransaction sampleValue acctPendingSpent tx2 [] Removed)"

subsection \<open>Repeating a synchronization\<close>

text \<open>
  The transaction that owns a note is stored, with a sequence if it has a block hash: the
  condition under which \<open>saveDecryptedNoteSequence\<close> returns.
\<close>

definition seqOk :: "account \<Rightarrow> buffer \<Rightarrow> bool" where
  "seqOk a th =
     (case map_of (transactions a) th of
        None \<Rightarrow> False
      | Some r \<Rightarrow> blockHash r = None \<or> sequence r \<noteq> None)"

text \<open>
  The hashes of the notes of a \<open>syncTransaction\<close> call that are not spender-derived.
\<close>

definition receivedHashes :: "decryptedNoteInput list \<Rightarrow> buffer set" where
  "receivedHashes ds = set (map merkleHash (filter (\<lambda>d. \<not> forSpender d) ds))"

text \<open>
  The writes of a note or of a nullifier mapping.
\<close>

definition isNoteWrite :: "dbWrite \<Rightarrow> bool" where
  "isNoteWrite w =
     (case w of SaveDecryptedNote h n \<Rightarrow> True | SaveNullifierNoteHash n h \<Rightarrow> True | _ \<Rightarrow> False)"

text \<open>
  The account after the nullifier of a received note, if it has one, is registered.
\<close>

definition registered :: "account \<Rightarrow> decryptedNoteInput \<Rightarrow> account" where
  "registered a d =
     (case in_nullifier d of
        Some n \<Rightarrow> updateNullifierNoteHash a n (merkleHash d) | None \<Rightarrow> a)"

text \<open>
  The note state that the note loop stores for a received note.
\<close>

definition receivedNote :: "account \<Rightarrow> buffer \<Rightarrow> decryptedNoteInput \<Rightarrow> decryptedNoteValue" where
  "receivedNote a th d =
     \<lparr>accountId = acc_id a, nullifierHash = in_nullifier d,
      noteIndex = in_noteIndex d, serializedNote = in_serializedNote d,
      spent = False, transactionHash = th\<rparr>"

text \<open>
  The Nullifier Index after the note loop.
\<close>

fun registerNullifiers ::
  "decryptedNoteInput list \<Rightarrow> (buffer \<times> buffer) list \<Rightarrow> (buffer \<times> buffer) list" where
  "registerNullifiers [] m = m"
| "registerNullifiers (d # ds) m =
     registerNullifiers ds
       (if forSpender d then m
        else (case in_nullifier d of Some n \<Rightarrow> AList.update n (merkleHash d) m | None \<Rightarrow> m))"

text \<open>
  Every received note is stored unspent, and the note loop would return.
\<close>

definition receivedSettled :: "account \<Rightarrow> buffer \<Rightarrow> decryptedNoteInput list \<Rightarrow> bool" where
  "receivedSettled a th ds =
     ((\<forall>h\<in>receivedHashes ds. \<exists>e. getDecryptedNote a h = Some e \<and> \<not> spent e) \<and>
      (receivedHashes ds = {} \<or> seqOk a th))"

text \<open>
  Every note that a spend resolves to has the flag the call gives it, and its update would
  return.
\<close>

definition spendsSettled :: "account \<Rightarrow> buffer list \<Rightarrow> bool \<Rightarrow> bool" where
  "spendsSettled a ns removing =
     (\<forall>h\<in>resolvedNotes a ns.
        \<exists>e. getDecryptedNote a h = Some e \<and> spent e = (\<not> removing) \<and>
            seqOk a (transactionHash e))"

text \<open>
  The sync that gave \<open>acctMined\<close>, repeated.
\<close>

definition acctMinedAgain :: account where
  "acctMinedAgain =
     resultAccount (syncTransaction sampleValue acctMined tx1 [in1] (Mined ''b1'' 10))"

text \<open>
  A transaction \<open>tx3\<close> that spends \<open>x1\<close> and has one received note \<open>n2\<close> of value 3, synced
  after \<open>acctMined\<close>.
\<close>

definition tx3 :: transaction where
  "tx3 = \<lparr>unsignedHash = ''t3'', spends = [''x1''], txNotes = [''n2''], txRest = []\<rparr>"

definition in2 :: decryptedNoteInput where
  "in2 = \<lparr>in_noteIndex = Some 1, in_nullifier = Some ''x2'', merkleHash = ''n2'',
          forSpender = False, in_serializedNote = ''vvv''\<rparr>"

definition acctChange :: account where
  "acctChange = resultAccount (syncTransaction sampleValue acctMined tx3 [in2] (Mined ''b3'' 12))"

text \<open>
  A transaction whose spend resolves to its own received note, synced twice.
\<close>

definition tx4 :: transaction where
  "tx4 = \<lparr>unsignedHash = ''t4'', spends = [''x5''], txNotes = [''n5''], txRest = []\<rparr>"

definition in5 :: decryptedNoteInput where
  "in5 = \<lparr>in_noteIndex = Some 0, in_nullifier = Some ''x5'', merkleHash = ''n5'',
          forSpender = False, in_serializedNote = ''vvvvv''\<rparr>"

definition acctSelfSpend :: account where
  "acctSelfSpend = resultAccount (syncTransaction sampleValue acct0 tx4 [in5] (Mined ''b4'' 10))"

definition acctSelfSpendAgain :: account where
  "acctSelfSpendAgain =
     resultAccount (syncTransaction sampleValue acctSelfSpend tx4 [in5] (Mined ''b4'' 10))"

subsection \<open>Saving and loading\<close>

text \<open>
  The total value of the unspent notes of the account.
\<close>

definition totalUnspent :: "noteValue \<Rightarrow> account \<Rightarrow> int" where
  "totalUnspent nv a = unspentValue nv a (\<lambda>h n. True)"

text \<open>
  Each index is a map (no key twice), every note carries the id of the account, and the
  transaction that owns it is stored, with a sequence if it has a block hash.
\<close>

definition loadable :: "account \<Rightarrow> bool" where
  "loadable a =
     (distinct (map fst (decryptedNotes a)) \<and> distinct (map fst (nullifierToNoteHash a)) \<and>
      distinct (map fst (transactions a)) \<and>
      list_all (\<lambda>(h, n). accountId n = acc_id a \<and> seqOk a (transactionHash n))
        (decryptedNotes a))"

text \<open>
  After \<open>acctSpent\<close>, the receive transaction \<open>tx1\<close> is deleted; then the account is saved
  and loaded into a fresh account over the same store.
\<close>

definition acctForgot :: account where
  "acctForgot = resultAccount (deleteTransaction sampleValue acctSpent ''t1'' tx1)"

definition acctReloaded :: account where
  "acctReloaded =
     resultAccount
       (load sampleValue (newAccount (acc_id acctForgot) (accountsDb (save acctForgot))))"

subsection \<open>Consistent indices\<close>

text \<open>
  The value a stored note counts for in the balance: its amount if it is unspent.
\<close>

definition unspentOf :: "noteValue \<Rightarrow> decryptedNoteValue option \<Rightarrow> int" where
  "unspentOf nv x =
     (case x of Some n \<Rightarrow> if spent n then 0 else nv (serializedNote n) | None \<Rightarrow> 0)"

definition unspentValueOf :: "noteValue \<Rightarrow> account \<Rightarrow> buffer \<Rightarrow> int" where
  "unspentValueOf nv a h = unspentOf nv (getDecryptedNote a h)"

text \<open>
  The indices are as the data model wants them: no hash twice, every hash of the Non-chain
  Note Set is a stored note, and bucket \<open>i\<close> of the Sequence Index holds exactly the notes whose
  owning transaction has sequence \<open>i\<close>.
\<close>

definition sequenceIndexConsistent :: "account \<Rightarrow> bool" where
  "sequenceIndexConsistent a =
     (distinct (map fst (decryptedNotes a)) \<and> distinct (nonChainNoteHashes a) \<and>
      (\<forall>h\<in>set (nonChainNoteHashes a). getDecryptedNote a h \<noteq> None) \<and>
      (\<forall>i hs. map_of (noteHashesBySequence a) i = Some hs \<longrightarrow> distinct hs) \<and>
      (\<forall>i h. (\<exists>hs. map_of (noteHashesBySequence a) i = Some hs \<and> h \<in> set hs) \<longleftrightarrow>
             (\<exists>n. getDecryptedNote a h = Some n \<and> owningSequence a n = Some i)))"

subsection \<open>Notes that lost their nullifier\<close>







section \<open>Evaluation of the operations on concrete accounts\<close>

lemmas db_defs =
  db_saveUnconfirmedBalance_def db_getUnconfirmedBalance_def db_saveDecryptedNote_def
  db_deleteDecryptedNote_def db_saveNullifierNoteHash_def db_deleteNullifier_def
  db_saveTransaction_def db_deleteTransaction_def db_replaceDecryptedNotes_def
  db_replaceNullifierToNoteHash_def db_replaceTransactions_def db_loadInto_def

lemmas op_defs =
  getUnconfirmedBalance_def saveUnconfirmedBalance_def getDecryptedNote_def getNoteHash_def
  getTransaction_def saveDecryptedNoteSequence_def adjustBalance_def updateDecryptedNote_def
  updateTransaction_def updateNullifierNoteHash_def deleteNullifier_def
  processTransactionSpends_def mergedSubmittedSequence_def shouldUpdateTransaction_def
  isRemovingTransaction_def syncTransactionRecord_def syncTransaction_def deleteDecryptedNote_def deleteTransaction_def
  getBalance_def loadDecryptedNotesAndBalance_def load_def save_def reset_def
  bufferSet_add_def bufferSet_delete_def newAccount_def emptyDb_def Let_def

lemmas scenario_defs =
  sampleValue_def tx1_def tx2_def in1_def note1_def acct0_def resultAccount_def

lemma acctMined_run:
  "syncTransaction sampleValue acct0 tx1 [in1] (Mined ''b1'' 10) = Inr acctMined"
  by (simp add: acctMined_def scenario_defs op_defs db_defs)

lemma acctMined_fields:
  "decryptedNotes acctMined = [(''n1'', note1)]"
  "nullifierToNoteHash acctMined = [(''x1'', ''n1'')]"
  "transactions acctMined = [(''t1'',
      \<lparr>transaction = tx1, blockHash = Some ''b1'', sequence = Some 10,
       submittedSequence = None\<rparr>)]"
  "noteHashesBySequence acctMined = [(10, [''n1''])]"
  "nonChainNoteHashes acctMined = []"
  "getUnconfirmedBalance acctMined = 5"
  "acc_id acctMined = ''acct''"
  by (simp_all add: acctMined_def scenario_defs op_defs db_defs)

section \<open>Frame lemmas\<close>

lemma saveDecryptedNoteSequence_frame:
  assumes "saveDecryptedNoteSequence a th nh = Inr a'"
  shows "decryptedNotes a' = decryptedNotes a" "nullifierToNoteHash a' = nullifierToNoteHash a"
    "transactions a' = transactions a" "accountsDb a' = accountsDb a" "acc_id a' = acc_id a"
  using assms
  by (auto simp: saveDecryptedNoteSequence_def split: option.splits)

lemma adjustBalance_frame:
  "decryptedNotes (adjustBalance nv a nh n) = decryptedNotes a"
  "nullifierToNoteHash (adjustBalance nv a nh n) = nullifierToNoteHash a"
  "transactions (adjustBalance nv a nh n) = transactions a"
  "noteHashesBySequence (adjustBalance nv a nh n) = noteHashesBySequence a"
  "nonChainNoteHashes (adjustBalance nv a nh n) = nonChainNoteHashes a"
  "acc_id (adjustBalance nv a nh n) = acc_id a"
  by (simp_all add: adjustBalance_def saveUnconfirmedBalance_def Let_def)

lemma adjustBalance_balance:
  "getUnconfirmedBalance (adjustBalance nv a nh n) =
     getUnconfirmedBalance a + balanceDelta nv (map_of (decryptedNotes a) nh) n"
  by (simp add: adjustBalance_def balanceDelta_def saveUnconfirmedBalance_def Let_def
      getUnconfirmedBalance_def db_getUnconfirmedBalance_def db_saveUnconfirmedBalance_def)

lemma updateDecryptedNote_Inr:
  assumes "updateDecryptedNote nv a nh n = Inr a'"
  obtains a1 where
    "saveDecryptedNoteSequence (adjustBalance nv a nh n) (transactionHash n) nh = Inr a1"
    and "a' = a1\<lparr>decryptedNotes := AList.update nh n (decryptedNotes a1),
                    accountsDb := db_saveDecryptedNote (accountsDb a1) nh n\<rparr>"
  using assms by (auto simp: updateDecryptedNote_def split: sum.splits)

lemma updateDecryptedNote_frame:
  assumes "updateDecryptedNote nv a nh n = Inr a'"
  shows "decryptedNotes a' = AList.update nh n (decryptedNotes a)"
    "nullifierToNoteHash a' = nullifierToNoteHash a"
    "transactions a' = transactions a" "acc_id a' = acc_id a"
    "getUnconfirmedBalance a' =
       getUnconfirmedBalance a + balanceDelta nv (map_of (decryptedNotes a) nh) n"
proof -
  from assms obtain a1 where
    s: "saveDecryptedNoteSequence (adjustBalance nv a nh n) (transactionHash n) nh = Inr a1"
    and a': "a' = a1\<lparr>decryptedNotes := AList.update nh n (decryptedNotes a1),
                    accountsDb := db_saveDecryptedNote (accountsDb a1) nh n\<rparr>"
    by (rule updateDecryptedNote_Inr)
  note f = saveDecryptedNoteSequence_frame[OF s]
  show "decryptedNotes a' = AList.update nh n (decryptedNotes a)"
    by (simp add: a' f adjustBalance_frame)
  show "nullifierToNoteHash a' = nullifierToNoteHash a"
    by (simp add: a' f adjustBalance_frame)
  show "transactions a' = transactions a"
    by (simp add: a' f adjustBalance_frame)
  show "acc_id a' = acc_id a"
    by (simp add: a' f adjustBalance_frame)
  have "getUnconfirmedBalance a' = getUnconfirmedBalance (adjustBalance nv a nh n)"
    by (simp add: a' f getUnconfirmedBalance_def db_getUnconfirmedBalance_def
        db_saveDecryptedNote_def)
  then show "getUnconfirmedBalance a' =
       getUnconfirmedBalance a + balanceDelta nv (map_of (decryptedNotes a) nh) n"
    by (simp add: adjustBalance_balance)
qed

section \<open>Note update and balance maintenance\<close>

text \<open>
  C2. When \<open>updateDecryptedNote\<close> returns for a note hash that has a stored entry, the
  unconfirmed balance changes only if the spent flag of the new state differs from the
  stored one: unspent to spent subtracts the value of the note, spent to unspent adds it,
  and an update of other fields alone leaves the balance as it was. For a note hash with
  no stored entry and an unspent new state, the balance grows by the value of the note.
\<close>

theorem updateDecryptedNote_balance:
  assumes "updateDecryptedNote nv a nh n = Inr a'"
  shows "(\<forall>e. map_of (decryptedNotes a) nh = Some e \<longrightarrow>
            getUnconfirmedBalance a' = getUnconfirmedBalance a +
              (if spent e = spent n then 0
               else if spent n then - nv (serializedNote n) else nv (serializedNote n))) \<and>
         (map_of (decryptedNotes a) nh = None \<and> \<not> spent n \<longrightarrow>
            getUnconfirmedBalance a' = getUnconfirmedBalance a + nv (serializedNote n))"
  using updateDecryptedNote_frame(5)[OF assms]
  by (auto simp: balanceDelta_def)

theorem updateDecryptedNote_balance_witness:
  "(\<exists>a'. updateDecryptedNote sampleValue acctMined ''n1'' (note1\<lparr>spent := True\<rparr>) = Inr a' \<and>
         getUnconfirmedBalance a' = 0) \<and>
   (\<exists>a'. updateDecryptedNote sampleValue acctMined ''n1'' (note1\<lparr>noteIndex := Some 7\<rparr>) = Inr a' \<and>
         getUnconfirmedBalance a' = 5) \<and>
   (\<exists>a'. updateDecryptedNote sampleValue acctTxOnly ''n1'' note1 = Inr a' \<and>
         getUnconfirmedBalance a' = 5)"
proof (intro conjI)
  obtain a' where e: "updateDecryptedNote sampleValue acctMined ''n1'' (note1\<lparr>spent := True\<rparr>) = Inr a'"
    by (simp add: acctMined_def scenario_defs op_defs db_defs)
  from updateDecryptedNote_balance[OF e] have "getUnconfirmedBalance a' = 0"
    by (simp add: acctMined_fields) (simp add: scenario_defs)
  with e show "\<exists>a'. updateDecryptedNote sampleValue acctMined ''n1'' (note1\<lparr>spent := True\<rparr>) = Inr a' \<and>
         getUnconfirmedBalance a' = 0"
    by blast
next
  obtain a' where e: "updateDecryptedNote sampleValue acctMined ''n1'' (note1\<lparr>noteIndex := Some 7\<rparr>) = Inr a'"
    by (simp add: acctMined_def scenario_defs op_defs db_defs)
  from updateDecryptedNote_balance[OF e] have "getUnconfirmedBalance a' = 5"
    by (simp add: acctMined_fields)
  with e show "\<exists>a'. updateDecryptedNote sampleValue acctMined ''n1'' (note1\<lparr>noteIndex := Some 7\<rparr>) = Inr a' \<and>
         getUnconfirmedBalance a' = 5"
    by blast
next
  obtain a' where e: "updateDecryptedNote sampleValue acctTxOnly ''n1'' note1 = Inr a'"
    by (simp add: acctTxOnly_def scenario_defs op_defs db_defs)
  from updateDecryptedNote_balance[OF e] have "getUnconfirmedBalance a' = 5"
    by (simp add: acctTxOnly_def scenario_defs op_defs db_defs)
  with e show "\<exists>a'. updateDecryptedNote sampleValue acctTxOnly ''n1'' note1 = Inr a' \<and>
         getUnconfirmedBalance a' = 5"
    by blast
qed

text \<open>
  C10. When \<open>updateDecryptedNote\<close> returns for a note hash with no stored entry and a new
  state that is spent, the unconfirmed balance has decreased by the value of the note,
  which was never added to it.
\<close>

theorem updateDecryptedNote_new_spent:
  assumes "updateDecryptedNote nv a nh n = Inr a'"
    and "map_of (decryptedNotes a) nh = None"
    and "spent n"
  shows "getUnconfirmedBalance a' = getUnconfirmedBalance a - nv (serializedNote n)"
  using updateDecryptedNote_frame(5)[OF assms(1)] assms(2,3)
  by (simp add: balanceDelta_def)

theorem updateDecryptedNote_new_spent_witness:
  "map_of (decryptedNotes acctTxOnly) ''n1'' = None \<and> spent (note1\<lparr>spent := True\<rparr>) \<and>
   getUnconfirmedBalance acctTxOnly = 0 \<and>
   (\<exists>a'. updateDecryptedNote sampleValue acctTxOnly ''n1'' (note1\<lparr>spent := True\<rparr>) = Inr a' \<and>
         getUnconfirmedBalance a' = - 5)"
proof -
  have h2: "map_of (decryptedNotes acctTxOnly) ''n1'' = None"
    by (simp add: acctTxOnly_def scenario_defs op_defs db_defs)
  have h3: "spent (note1\<lparr>spent := True\<rparr>)" by simp
  have b: "getUnconfirmedBalance acctTxOnly = 0"
    by (simp add: acctTxOnly_def scenario_defs op_defs db_defs)
  obtain a' where e: "updateDecryptedNote sampleValue acctTxOnly ''n1'' (note1\<lparr>spent := True\<rparr>) = Inr a'"
    by (simp add: acctTxOnly_def scenario_defs op_defs db_defs)
  from updateDecryptedNote_new_spent[OF e h2 h3] b have "getUnconfirmedBalance a' = - 5"
    by (simp add: scenario_defs)
  with e h2 h3 b show ?thesis by blast
qed

section \<open>Store writes and the frame of the loops\<close>

lemma saveDecryptedNoteSequence_ok:
  "(\<exists>a'. saveDecryptedNoteSequence a th nh = Inr a') \<longleftrightarrow>
   (\<exists>r. map_of (transactions a) th = Some r \<and> (blockHash r \<noteq> None \<longrightarrow> sequence r \<noteq> None))"
  by (auto simp: saveDecryptedNoteSequence_def split: option.splits)

lemma adjustBalance_writes:
  "writes (accountsDb (adjustBalance nv a nh n)) =
     writes (accountsDb a) @
       (if (case map_of (decryptedNotes a) nh of None \<Rightarrow> True | Some e \<Rightarrow> spent e \<noteq> spent n)
        then [SaveUnconfirmedBalance
                (getUnconfirmedBalance a + balanceDelta nv (map_of (decryptedNotes a) nh) n)]
        else [])"
  by (simp add: adjustBalance_def balanceDelta_def saveUnconfirmedBalance_def Let_def
      getUnconfirmedBalance_def db_getUnconfirmedBalance_def db_saveUnconfirmedBalance_def)

lemma updateDecryptedNote_writes:
  assumes "updateDecryptedNote nv a nh n = Inr a'"
  shows "writes (accountsDb a') =
     writes (accountsDb a) @
       (if (case map_of (decryptedNotes a) nh of None \<Rightarrow> True | Some e \<Rightarrow> spent e \<noteq> spent n)
        then [SaveUnconfirmedBalance
                (getUnconfirmedBalance a + balanceDelta nv (map_of (decryptedNotes a) nh) n)]
        else []) @ [SaveDecryptedNote nh n]"
proof -
  from assms obtain a1 where
    s: "saveDecryptedNoteSequence (adjustBalance nv a nh n) (transactionHash n) nh = Inr a1"
    and a': "a' = a1\<lparr>decryptedNotes := AList.update nh n (decryptedNotes a1),
                    accountsDb := db_saveDecryptedNote (accountsDb a1) nh n\<rparr>"
    by (rule updateDecryptedNote_Inr)
  show ?thesis
    by (simp add: a' saveDecryptedNoteSequence_frame(4)[OF s] db_saveDecryptedNote_def
        adjustBalance_writes)
qed

lemma updateDecryptedNote_noSaveTransaction:
  assumes "updateDecryptedNote nv a nh n = Inr a'"
  shows "\<exists>ws. writes (accountsDb a') = writes (accountsDb a) @ ws \<and> filter isSaveTransaction ws = []"
  using updateDecryptedNote_writes[OF assms]
  by (auto simp: isSaveTransaction_def)

lemma updateNullifierNoteHash_noSaveTransaction:
  "\<exists>ws. writes (accountsDb (updateNullifierNoteHash a n h)) = writes (accountsDb a) @ ws \<and>
        filter isSaveTransaction ws = []"
  by (simp add: updateNullifierNoteHash_def db_saveNullifierNoteHash_def isSaveTransaction_def)

lemma updateNullifierNoteHash_frame:
  "transactions (updateNullifierNoteHash a n h) = transactions a"
  "decryptedNotes (updateNullifierNoteHash a n h) = decryptedNotes a"
  "acc_id (updateNullifierNoteHash a n h) = acc_id a"
  "getUnconfirmedBalance (updateNullifierNoteHash a n h) = getUnconfirmedBalance a"
  "nullifierToNoteHash (updateNullifierNoteHash a n h) = AList.update n h (nullifierToNoteHash a)"
  by (simp_all add: updateNullifierNoteHash_def db_saveNullifierNoteHash_def
      getUnconfirmedBalance_def db_getUnconfirmedBalance_def)

lemma noSaveTransaction_trans:
  assumes "\<exists>ws. writes (accountsDb b) = writes (accountsDb a) @ ws \<and> filter isSaveTransaction ws = []"
    and "\<exists>ws. writes (accountsDb c) = writes (accountsDb b) @ ws \<and> filter isSaveTransaction ws = []"
  shows "\<exists>ws. writes (accountsDb c) = writes (accountsDb a) @ ws \<and> filter isSaveTransaction ws = []"
  using assms by auto

lemma bulkUpdateDecryptedNotes_frame:
  assumes "bulkUpdateDecryptedNotes nv a th ds = Inr a'"
  shows "transactions a' = transactions a \<and> acc_id a' = acc_id a \<and>
    (\<exists>ws. writes (accountsDb a') = writes (accountsDb a) @ ws \<and> filter isSaveTransaction ws = [])"
  using assms
proof (induction ds arbitrary: a)
  case Nil
  then show ?case by simp
next
  case (Cons d ds)
  show ?case
  proof (cases "forSpender d")
    case True
    with Cons show ?thesis by simp
  next
    case False
    define a1 where "a1 = (case in_nullifier d of
                     Some n \<Rightarrow> updateNullifierNoteHash a n (merkleHash d)
                   | None \<Rightarrow> a)"
    have f1: "transactions a1 = transactions a" "acc_id a1 = acc_id a"
      "\<exists>ws. writes (accountsDb a1) = writes (accountsDb a) @ ws \<and> filter isSaveTransaction ws = []"
      using updateNullifierNoteHash_noSaveTransaction
      by (auto simp: a1_def updateNullifierNoteHash_frame split: option.splits)
    from Cons.prems False obtain a2 where
      u: "updateDecryptedNote nv a1 (merkleHash d)
                   \<lparr>accountId = acc_id a1, nullifierHash = in_nullifier d,
                    noteIndex = in_noteIndex d, serializedNote = in_serializedNote d,
                    spent = False, transactionHash = th\<rparr> = Inr a2"
      and r: "bulkUpdateDecryptedNotes nv a2 th ds = Inr a'"
      by (auto simp: a1_def Let_def split: sum.splits)
    have "\<exists>ws. writes (accountsDb a2) = writes (accountsDb a) @ ws \<and> filter isSaveTransaction ws = []"
      by (rule noSaveTransaction_trans[OF f1(3) updateDecryptedNote_noSaveTransaction[OF u]])
    then have "\<exists>ws. writes (accountsDb a') = writes (accountsDb a) @ ws \<and> filter isSaveTransaction ws = []"
      using Cons.IH[OF r] by (blast intro: noSaveTransaction_trans)
    with Cons.IH[OF r] updateDecryptedNote_frame(3,4)[OF u] f1(1,2)
    show ?thesis by simp
  qed
qed

lemma processSpends_frame:
  assumes "processSpends nv a ns b = Inr a'"
  shows "transactions a' = transactions a \<and> acc_id a' = acc_id a \<and>
    nullifierToNoteHash a' = nullifierToNoteHash a \<and>
    (\<exists>ws. writes (accountsDb a') = writes (accountsDb a) @ ws \<and> filter isSaveTransaction ws = [])"
  using assms
proof (induction ns arbitrary: a)
  case Nil
  then show ?case by simp
next
  case (Cons n ns)
  show ?case
  proof (cases "getNoteHash a n")
    case None
    with Cons show ?thesis by simp
  next
    case (Some h)
    with Cons.prems obtain d a1 where
      d: "getDecryptedNote a h = Some d"
      and u: "updateDecryptedNote nv a h (d\<lparr>spent := \<not> b\<rparr>) = Inr a1"
      and r: "processSpends nv a1 ns b = Inr a'"
      by (auto split: option.splits sum.splits)
    have "\<exists>ws. writes (accountsDb a') = writes (accountsDb a) @ ws \<and> filter isSaveTransaction ws = []"
      using Cons.IH[OF r] by (blast intro: noSaveTransaction_trans[OF updateDecryptedNote_noSaveTransaction[OF u]])
    with Cons.IH[OF r] updateDecryptedNote_frame(2,3,4)[OF u]
    show ?thesis by simp
  qed
qed






lemma map_of_update_present:
  "map_of al h \<noteq> None \<Longrightarrow> map_of (AList.update k v al) h \<noteq> None"
  by (simp add: update_conv')






section \<open>The transaction record\<close>

text \<open>
  C6. For a transaction hash that has a stored record, the first step of \<open>syncTransaction\<close>
  rewrites the record in memory and persists it if the new payload differs from the stored
  payload or the new block hash differs from the stored block hash, and otherwise leaves the
  account as it is. When the call returns, it has made one \<open>saveTransaction\<close> call in the
  first case, and in the second none, with the transaction table as it was.
\<close>

theorem syncTransaction_record_write:
  assumes "map_of (transactions a) (unsignedHash t) = Some r"
  shows "syncTransactionRecord a t params =
       (if transaction r \<noteq> t \<or> blockHash r \<noteq> params_blockHash params
        then updateTransaction a (unsignedHash t)
               \<lparr>transaction = t, blockHash = params_blockHash params,
                sequence = params_sequence params, submittedSequence = submittedSequence r\<rparr>
        else a) \<and>
     (\<forall>a'. syncTransaction nv a t ds params = Inr a' \<longrightarrow>
        (\<exists>ws. writes (accountsDb a') = writes (accountsDb a) @ ws \<and>
           (if transaction r \<noteq> t \<or> blockHash r \<noteq> params_blockHash params
            then filter isSaveTransaction ws =
                   [SaveTransaction (unsignedHash t)
                      \<lparr>transaction = t, blockHash = params_blockHash params,
                       sequence = params_sequence params,
                       submittedSequence = submittedSequence r\<rparr>] \<and>
                 transactions a' =
                   AList.update (unsignedHash t)
                      \<lparr>transaction = t, blockHash = params_blockHash params,
                       sequence = params_sequence params,
                       submittedSequence = submittedSequence r\<rparr>
                      (transactions a)
            else filter isSaveTransaction ws = [] \<and> transactions a' = transactions a)))"
proof (intro conjI allI impI)
  define a1 where "a1 = syncTransactionRecord a t params"
  show rec: "syncTransactionRecord a t params =
       (if transaction r \<noteq> t \<or> blockHash r \<noteq> params_blockHash params
        then updateTransaction a (unsignedHash t)
               \<lparr>transaction = t, blockHash = params_blockHash params,
                sequence = params_sequence params, submittedSequence = submittedSequence r\<rparr>
        else a)"
    using assms
    by (simp add: syncTransactionRecord_def shouldUpdateTransaction_def
        mergedSubmittedSequence_def)
  fix a'
  assume run: "syncTransaction nv a t ds params = Inr a'"
  then obtain a2 where
    b: "bulkUpdateDecryptedNotes nv a1 (unsignedHash t) ds = Inr a2"
    and p: "processSpends nv a2 (spends t) (isRemovingTransaction a t params) = Inr a'"
    by (auto simp: syncTransaction_def a1_def processTransactionSpends_def split: sum.splits)
  from bulkUpdateDecryptedNotes_frame[OF b] processSpends_frame[OF p]
  have t: "transactions a' = transactions a1" by simp
  have "\<exists>ws. writes (accountsDb a') = writes (accountsDb a1) @ ws \<and> filter isSaveTransaction ws = []"
    using bulkUpdateDecryptedNotes_frame[OF b] processSpends_frame[OF p]
    by (blast intro: noSaveTransaction_trans)
  then obtain ws where ws: "writes (accountsDb a') = writes (accountsDb a1) @ ws"
    "filter isSaveTransaction ws = []"
    by blast
  show "\<exists>ws. writes (accountsDb a') = writes (accountsDb a) @ ws \<and>
     (if transaction r \<noteq> t \<or> blockHash r \<noteq> params_blockHash params
      then filter isSaveTransaction ws =
             [SaveTransaction (unsignedHash t)
                \<lparr>transaction = t, blockHash = params_blockHash params,
                 sequence = params_sequence params, submittedSequence = submittedSequence r\<rparr>] \<and>
           transactions a' =
             AList.update (unsignedHash t)
                \<lparr>transaction = t, blockHash = params_blockHash params,
                 sequence = params_sequence params, submittedSequence = submittedSequence r\<rparr>
                (transactions a)
      else filter isSaveTransaction ws = [] \<and> transactions a' = transactions a)"
  proof (cases "transaction r \<noteq> t \<or> blockHash r \<noteq> params_blockHash params")
    case True
    then have "a1 = updateTransaction a (unsignedHash t)
          \<lparr>transaction = t, blockHash = params_blockHash params,
           sequence = params_sequence params, submittedSequence = submittedSequence r\<rparr>"
      using rec by (simp add: a1_def)
    with True t ws show ?thesis
      by (simp add: updateTransaction_def db_saveTransaction_def isSaveTransaction_def)
  next
    case False
    then have "a1 = a"
      using rec by (simp add: a1_def)
    with False t ws show ?thesis by simp
  qed
qed

theorem syncTransaction_record_write_witness:
  "(\<exists>a' ws. syncTransaction sampleValue acctMined tx1 [in1] (Mined ''b1'' 10) = Inr a' \<and>
       writes (accountsDb a') = writes (accountsDb acctMined) @ ws \<and>
       filter isSaveTransaction ws = [] \<and> transactions a' = transactions acctMined) \<and>
   (\<exists>a' ws. syncTransaction sampleValue acctMined tx1 [in1] (Mined ''b9'' 11) = Inr a' \<and>
       writes (accountsDb a') = writes (accountsDb acctMined) @ ws \<and>
       filter isSaveTransaction ws =
         [SaveTransaction ''t1'' \<lparr>transaction = tx1, blockHash = Some ''b9'',
            sequence = Some 11, submittedSequence = None\<rparr>])"
proof (intro conjI)
  have r: "map_of (transactions acctMined) (unsignedHash tx1) =
      Some \<lparr>transaction = tx1, blockHash = Some ''b1'', sequence = Some 10,
             submittedSequence = None\<rparr>"
    by (simp add: acctMined_fields) (simp add: tx1_def)
  obtain a' where e: "syncTransaction sampleValue acctMined tx1 [in1] (Mined ''b1'' 10) = Inr a'"
    by (simp add: acctMined_def scenario_defs op_defs db_defs)
  from syncTransaction_record_write[OF r, of "Mined ''b1'' 10" sampleValue "[in1]"] e
  show "\<exists>a' ws. syncTransaction sampleValue acctMined tx1 [in1] (Mined ''b1'' 10) = Inr a' \<and>
       writes (accountsDb a') = writes (accountsDb acctMined) @ ws \<and>
       filter isSaveTransaction ws = [] \<and> transactions a' = transactions acctMined"
    by auto
  obtain a'' where e': "syncTransaction sampleValue acctMined tx1 [in1] (Mined ''b9'' 11) = Inr a''"
    by (simp add: acctMined_def scenario_defs op_defs db_defs)
  from syncTransaction_record_write[OF r, of "Mined ''b9'' 11" sampleValue "[in1]"] e'
  show "\<exists>a' ws. syncTransaction sampleValue acctMined tx1 [in1] (Mined ''b9'' 11) = Inr a' \<and>
       writes (accountsDb a') = writes (accountsDb acctMined) @ ws \<and>
       filter isSaveTransaction ws =
         [SaveTransaction ''t1'' \<lparr>transaction = tx1, blockHash = Some ''b9'',
            sequence = Some 11, submittedSequence = None\<rparr>]"
    by (auto simp: tx1_def)
qed

section \<open>Deletion\<close>









section \<open>The Sequence Index and the Non-chain Note Set\<close>

lemma acctRemoved_run:
  "syncTransaction sampleValue acctMined tx1 [in1] Removed = Inr acctRemoved"
  by (simp add: acctRemoved_def acctMined_def scenario_defs op_defs db_defs)

lemma acctRemoved_fields:
  "decryptedNotes acctRemoved = [(''n1'', note1)]"
  "nullifierToNoteHash acctRemoved = [(''x1'', ''n1'')]"
  "transactions acctRemoved = [(''t1'',
      \<lparr>transaction = tx1, blockHash = None, sequence = None, submittedSequence = None\<rparr>)]"
  "noteHashesBySequence acctRemoved = [(10, [''n1''])]"
  "nonChainNoteHashes acctRemoved = [''n1'']"
  "getUnconfirmedBalance acctRemoved = 5"
  by (simp_all add: acctRemoved_def acctMined_def scenario_defs op_defs db_defs)

lemma indexPartition_acctMined: "indexPartition acctMined"
  by (simp add: indexPartition_def bucketedNoteHashes_def acctMined_fields)

text \<open>\<open>reset\<close> empties the note table and leaves both indices as they were.\<close>

lemma reset_keeps_indices:
  "decryptedNotes (reset a) = [] \<and> noteHashesBySequence (reset a) = noteHashesBySequence a \<and>
   nonChainNoteHashes (reset a) = nonChainNoteHashes a"
  by (simp add: reset_def saveUnconfirmedBalance_def)

lemma reset_breaks_indexPartition: "\<not> indexPartition (reset acctMined)"
  by (simp add: indexPartition_def bucketedNoteHashes_def reset_keeps_indices acctMined_fields)

text \<open>
  C5. The Non-chain Note Set is to be disjoint from the Sequence Index in every reachable
  state. From the empty account, \<open>tx1\<close> is synced as Mined at sequence 10 and then with the
  Removed status: \<open>saveDecryptedNoteSequence\<close> adds the note to the Non-chain Note Set and
  leaves it in bucket 10, so the note is in both.
\<close>

theorem removed_note_in_both_indices:
  "syncTransaction sampleValue acct0 tx1 [in1] (Mined ''b1'' 10) = Inr acctMined \<and>
   syncTransaction sampleValue acctMined tx1 [in1] Removed = Inr acctRemoved \<and>
   map_of (noteHashesBySequence acctRemoved) 10 = Some [''n1''] \<and>
   nonChainNoteHashes acctRemoved = [''n1''] \<and>
   \<not> indexPartition acctRemoved"
  by (simp add: acctMined_run acctRemoved_run acctRemoved_fields indexPartition_def
      bucketedNoteHashes_def)

section \<open>The confirmed balance\<close>

lemma scenario_balances:
   "getBalance sampleValue acctMined 5 12 = Inr (5, 0) \<and>
   getBalance sampleValue acctMined 11 12 = Inr (5, 5) \<and> specConfirmed sampleValue acctMined 5 12 = 0
  \<and> specConfirmed sampleValue acctMined 11 12 = 5"
    by (simp add: getBalance_def specConfirmed_def unspentValue_def owningSequence_def acctMined_fields) (simp add: scenario_defs)

text \<open>
  C3. \<open>getBalance\<close> is to return the unconfirmed balance minus the unspent notes whose
  owning transaction has its sequence in the range, minus the unspent notes of the Non-chain
  Note Set. After \<open>tx1\<close> is mined at sequence 10 the balances are as the scenario says:
  unconfirmed 5, confirmed 0 from sequence 5 and 5 from sequence 11, with head 12. After
  \<open>tx1\<close> is synced again with the Removed status the note is still in bucket 10 and also
  in the Non-chain Note Set, and \<open>getBalance\<close> subtracts it twice: confirmed is -5, where
  the stated difference is 0.
\<close>

theorem getBalance_removed_subtracts_twice:
  "syncTransaction sampleValue acct0 tx1 [in1] (Mined ''b1'' 10) = Inr acctMined \<and>
   syncTransaction sampleValue acctMined tx1 [in1] Removed = Inr acctRemoved \<and>
   getBalance sampleValue acctMined 5 12 = Inr (5, 0) \<and>
   getBalance sampleValue acctMined 11 12 = Inr (5, 5) \<and>
   getBalance sampleValue acctRemoved 5 12 = Inr (5, - 5) \<and>
   specConfirmed sampleValue acctRemoved 5 12 = 0"
proof -
  have "getBalance sampleValue acctRemoved 5 12 = Inr (5, - 5)"
    by (simp add: getBalance_def acctRemoved_fields) (simp add: scenario_defs)
  moreover have "specConfirmed sampleValue acctRemoved 5 12 = 0"
    by (simp add: specConfirmed_def unspentValue_def owningSequence_def acctRemoved_fields)
       (simp add: scenario_defs)
  ultimately show ?thesis
    using scenario_balances by (simp add: acctMined_run acctRemoved_run)
qed

section \<open>Spends\<close>

lemma resolvedNotes_Cons:
  "resolvedNotes a (n # ns) =
     (case getNoteHash a n of None \<Rightarrow> resolvedNotes a ns | Some h \<Rightarrow> insert h (resolvedNotes a ns))"
  by (simp add: resolvedNotes_def List.map_filter_simps split: option.splits)

lemma resolvedNotes_index:
  "nullifierToNoteHash a' = nullifierToNoteHash a \<Longrightarrow> resolvedNotes a' ns = resolvedNotes a ns"
proof -
  assume "nullifierToNoteHash a' = nullifierToNoteHash a"
  then have "getNoteHash a' = getNoteHash a"
    by (intro ext) (simp add: getNoteHash_def)
  then show ?thesis by (simp add: resolvedNotes_def)
qed

lemma finite_resolvedNotes: "finite (resolvedNotes a ns)"
  by (simp add: resolvedNotes_def)

lemma processSpends_flag_kept:
  assumes "processSpends nv a ns b = Inr a'"
    and "getDecryptedNote a h = Some d" and "spent d = (\<not> b)"
  shows "\<exists>d'. getDecryptedNote a' h = Some d' \<and> spent d' = (\<not> b)"
  using assms
proof (induction ns arbitrary: a d)
  case Nil
  then show ?case by simp
next
  case (Cons n ns)
  show ?case
  proof (cases "getNoteHash a n")
    case None
    with Cons show ?thesis by simp
  next
    case (Some h')
    with Cons.prems(1) obtain e a1 where
      e: "getDecryptedNote a h' = Some e"
      and u: "updateDecryptedNote nv a h' (e\<lparr>spent := \<not> b\<rparr>) = Inr a1"
      and r: "processSpends nv a1 ns b = Inr a'"
      by (auto split: option.splits sum.splits)
    from updateDecryptedNote_frame(1)[OF u] Cons.prems(2,3)
    have "\<exists>d1. getDecryptedNote a1 h = Some d1 \<and> spent d1 = (\<not> b)"
      by (auto simp: getDecryptedNote_def update_conv')
    then obtain d1 where "getDecryptedNote a1 h = Some d1" "spent d1 = (\<not> b)" by blast
    from Cons.IH[OF r this] show ?thesis .
  qed
qed

lemma processSpends_flags:
  assumes "processSpends nv a ns b = Inr a'" and "n \<in> set ns" and "getNoteHash a n = Some h"
  shows "\<exists>d'. getDecryptedNote a' h = Some d' \<and> spent d' = (\<not> b)"
  using assms
proof (induction ns arbitrary: a)
  case Nil
  then show ?case by simp
next
  case (Cons x ns)
  show ?case
  proof (cases "getNoteHash a x")
    case None
    with Cons.prems have "n \<in> set ns" "processSpends nv a ns b = Inr a'" by auto
    from Cons.IH[OF this(2,1) Cons.prems(3)] show ?thesis .
  next
    case (Some h')
    with Cons.prems(1) obtain e a1 where
      e: "getDecryptedNote a h' = Some e"
      and u: "updateDecryptedNote nv a h' (e\<lparr>spent := \<not> b\<rparr>) = Inr a1"
      and r: "processSpends nv a1 ns b = Inr a'"
      by (auto split: option.splits sum.splits)
    have idx: "getNoteHash a1 n = Some h"
      using updateDecryptedNote_frame(2)[OF u] Cons.prems(3) by (simp add: getNoteHash_def)
    show ?thesis
    proof (cases "x = n")
      case True
      with Some Cons.prems(3) have "h' = h" by simp
      with updateDecryptedNote_frame(1)[OF u]
      have "getDecryptedNote a1 h = Some (e\<lparr>spent := \<not> b\<rparr>)"
        by (simp add: getDecryptedNote_def update_conv')
      from processSpends_flag_kept[OF r this] show ?thesis by simp
    next
      case False
      with Cons.prems(2) have "n \<in> set ns" by simp
      from Cons.IH[OF r this idx] show ?thesis .
    qed
  qed
qed

lemma processSpends_removing_balance:
  assumes "processSpends nv a ns True = Inr a'"
  shows "getUnconfirmedBalance a' =
     getUnconfirmedBalance a + (\<Sum>h\<in>resolvedNotes a ns. spentValueOf nv a h)"
  using assms
proof (induction ns arbitrary: a)
  case Nil
  then show ?case by (simp add: resolvedNotes_def List.map_filter_simps)
next
  case (Cons n ns)
  show ?case
  proof (cases "getNoteHash a n")
    case None
    with Cons show ?thesis by (simp add: resolvedNotes_Cons)
  next
    case (Some h)
    with Cons.prems(1) obtain e a1 where
      e: "getDecryptedNote a h = Some e"
      and u: "updateDecryptedNote nv a h (e\<lparr>spent := False\<rparr>) = Inr a1"
      and r: "processSpends nv a1 ns True = Inr a'"
      by (auto split: option.splits sum.splits)
    let ?S = "resolvedNotes a ns"
    have S1: "resolvedNotes a1 ns = ?S"
      by (rule resolvedNotes_index[OF updateDecryptedNote_frame(2)[OF u]])
    have b1: "getUnconfirmedBalance a1 = getUnconfirmedBalance a + spentValueOf nv a h"
      using updateDecryptedNote_frame(5)[OF u] e
      by (simp add: balanceDelta_def spentValueOf_def getDecryptedNote_def)
    have v1: "\<And>h'. spentValueOf nv a1 h' = (if h' = h then 0 else spentValueOf nv a h')"
      using updateDecryptedNote_frame(1)[OF u]
      by (simp add: spentValueOf_def getDecryptedNote_def update_conv')
    have "(\<Sum>h'\<in>?S. spentValueOf nv a1 h') = (\<Sum>h'\<in>?S - {h}. spentValueOf nv a h')"
      by (simp add: v1 sum.If_cases[OF finite_resolvedNotes] Diff_eq Int_commute
          flip: Collect_neg_eq)
    moreover have "(\<Sum>h'\<in>insert h ?S. spentValueOf nv a h') =
        spentValueOf nv a h + (\<Sum>h'\<in>?S - {h}. spentValueOf nv a h')"
      by (rule sum.insert_remove[OF finite_resolvedNotes])
    ultimately show ?thesis
      using Cons.IH[OF r] b1 S1 Some by (simp add: resolvedNotes_Cons)
  qed
qed

lemma acctSpent_run:
  "syncTransaction sampleValue acctMined tx2 [] (Mined ''b2'' 11) = Inr acctSpent"
  by (simp add: acctSpent_def acctMined_def scenario_defs op_defs db_defs)

lemma acctSpent_fields:
  "decryptedNotes acctSpent = [(''n1'', note1\<lparr>spent := True\<rparr>)]"
  "nullifierToNoteHash acctSpent = [(''x1'', ''n1'')]"
  "transactions acctSpent = [(''t1'',
      \<lparr>transaction = tx1, blockHash = Some ''b1'', sequence = Some 10,
       submittedSequence = None\<rparr>), (''t2'',
      \<lparr>transaction = tx2, blockHash = Some ''b2'', sequence = Some 11,
       submittedSequence = None\<rparr>)]"
  "getUnconfirmedBalance acctSpent = 0"
  by (simp_all add: acctSpent_def acctMined_def scenario_defs op_defs db_defs)

lemma syncTransactionRecord_notes_frame:
  "resolvedNotes (syncTransactionRecord a t params) ns = resolvedNotes a ns"
  "spentValueOf nv (syncTransactionRecord a t params) h = spentValueOf nv a h"
  "getUnconfirmedBalance (syncTransactionRecord a t params) = getUnconfirmedBalance a"
proof -
  have n: "nullifierToNoteHash (syncTransactionRecord a t params) = nullifierToNoteHash a"
    and d: "decryptedNotes (syncTransactionRecord a t params) = decryptedNotes a"
    by (simp_all add: syncTransactionRecord_def updateTransaction_def)
  show "resolvedNotes (syncTransactionRecord a t params) ns = resolvedNotes a ns"
    by (rule resolvedNotes_index[OF n])
  show "spentValueOf nv (syncTransactionRecord a t params) h = spentValueOf nv a h"
    by (simp add: spentValueOf_def getDecryptedNote_def d)
  show "getUnconfirmedBalance (syncTransactionRecord a t params) = getUnconfirmedBalance a"
    by (simp add: syncTransactionRecord_def updateTransaction_def getUnconfirmedBalance_def
        db_getUnconfirmedBalance_def db_saveTransaction_def)
qed

text \<open>
  C4. When \<open>syncTransaction\<close> returns, every spend of the transaction whose nullifier
  resolves to a note in the Nullifier Index has the spent flag of that note set to true if
  the call is not a removal (the merged submitted sequence or the block hash is not null)
  and to false if it is. A call with the Removed status is a removal exactly when the
  stored record, if there is one, has no submitted sequence. In a removal the spend pass
  adds to the unconfirmed balance, as the note loop of the call left it, the value of every
  note the spends resolve to that was spent; for a call with no decrypted notes that is the
  balance before the call.
\<close>

theorem syncTransaction_spends:
  assumes "syncTransaction nv a t ds params = Inr a'"
  shows "(\<forall>n\<in>set (spends t). \<forall>h. getNoteHash a' n = Some h \<longrightarrow>
            (\<exists>d. getDecryptedNote a' h = Some d \<and>
                 spent d = (\<not> isRemovingTransaction a t params))) \<and>
         (params = Removed \<longrightarrow>
            isRemovingTransaction a t params =
              (\<forall>r. getTransaction a (unsignedHash t) = Some r \<longrightarrow> submittedSequence r = None)) \<and>
         (isRemovingTransaction a t params \<longrightarrow>
            (\<forall>a2. bulkUpdateDecryptedNotes nv (syncTransactionRecord a t params) (unsignedHash t) ds
                    = Inr a2 \<longrightarrow>
               getUnconfirmedBalance a' =
                 getUnconfirmedBalance a2 +
                   (\<Sum>h\<in>resolvedNotes a2 (spends t). spentValueOf nv a2 h))) \<and>
         (isRemovingTransaction a t params \<and> ds = [] \<longrightarrow>
            getUnconfirmedBalance a' =
              getUnconfirmedBalance a + (\<Sum>h\<in>resolvedNotes a (spends t). spentValueOf nv a h))"
proof -
  from assms obtain a2 where
    b: "bulkUpdateDecryptedNotes nv (syncTransactionRecord a t params) (unsignedHash t) ds = Inr a2"
    and p: "processSpends nv a2 (spends t) (isRemovingTransaction a t params) = Inr a'"
    by (auto simp: syncTransaction_def processTransactionSpends_def split: sum.splits)
  have flags: "\<forall>n\<in>set (spends t). \<forall>h. getNoteHash a' n = Some h \<longrightarrow>
            (\<exists>d. getDecryptedNote a' h = Some d \<and>
                 spent d = (\<not> isRemovingTransaction a t params))"
  proof (intro ballI allI impI)
    fix n h
    assume n: "n \<in> set (spends t)" and h: "getNoteHash a' n = Some h"
    from processSpends_frame[OF p] h have "getNoteHash a2 n = Some h"
      by (simp add: getNoteHash_def)
    from processSpends_flags[OF p n this]
    show "\<exists>d. getDecryptedNote a' h = Some d \<and> spent d = (\<not> isRemovingTransaction a t params)" .
  qed
  have status: "params = Removed \<longrightarrow>
            isRemovingTransaction a t params =
              (\<forall>r. getTransaction a (unsignedHash t) = Some r \<longrightarrow> submittedSequence r = None)"
    by (auto simp: isRemovingTransaction_def mergedSubmittedSequence_def getTransaction_def
        split: option.splits)
  have bal: "getUnconfirmedBalance a' =
        getUnconfirmedBalance a2 + (\<Sum>h\<in>resolvedNotes a2 (spends t). spentValueOf nv a2 h)"
    if r: "isRemovingTransaction a t params"
    using processSpends_removing_balance[of nv a2 "spends t" a'] p r by simp
  have pass: "isRemovingTransaction a t params \<longrightarrow>
            (\<forall>a3. bulkUpdateDecryptedNotes nv (syncTransactionRecord a t params) (unsignedHash t) ds
                    = Inr a3 \<longrightarrow>
               getUnconfirmedBalance a' =
                 getUnconfirmedBalance a3 +
                   (\<Sum>h\<in>resolvedNotes a3 (spends t). spentValueOf nv a3 h))"
    using b bal by simp
  have plain: "isRemovingTransaction a t params \<and> ds = [] \<longrightarrow>
            getUnconfirmedBalance a' =
              getUnconfirmedBalance a + (\<Sum>h\<in>resolvedNotes a (spends t). spentValueOf nv a h)"
  proof
    assume h: "isRemovingTransaction a t params \<and> ds = []"
    with b have "a2 = syncTransactionRecord a t params" by simp
    with bal h show "getUnconfirmedBalance a' =
        getUnconfirmedBalance a + (\<Sum>h\<in>resolvedNotes a (spends t). spentValueOf nv a h)"
      by (simp add: syncTransactionRecord_notes_frame)
  qed
  from flags status pass plain show ?thesis by blast
qed

theorem syncTransaction_spends_witness:
  "syncTransaction sampleValue acctMined tx2 [] (Mined ''b2'' 11) = Inr acctSpent \<and>
   map_option spent (getDecryptedNote acctSpent ''n1'') = Some True \<and>
   getUnconfirmedBalance acctSpent = 0 \<and>
   (\<exists>a'. syncTransaction sampleValue acctSpent tx2 [] Removed = Inr a' \<and>
      map_option spent (getDecryptedNote a' ''n1'') = Some False \<and>
      getUnconfirmedBalance a' = 5)"
proof -
  obtain a' where e: "syncTransaction sampleValue acctSpent tx2 [] Removed = Inr a'"
    by (simp add: acctSpent_def acctMined_def scenario_defs op_defs db_defs)
  note t = syncTransaction_spends[OF e]
  have rm: "isRemovingTransaction acctSpent tx2 Removed"
    using t[THEN conjunct2, THEN conjunct1]
    by (simp add: getTransaction_def acctSpent_fields)
  have idx: "nullifierToNoteHash a' = [(''x1'', ''n1'')]"
    using e by (auto simp: acctSpent_def acctMined_def scenario_defs op_defs db_defs)
  have "''x1'' \<in> set (spends tx2)" "getNoteHash a' ''x1'' = Some ''n1''"
    by (simp_all add: tx2_def getNoteHash_def idx)
  with t[THEN conjunct1] rm have f: "map_option spent (getDecryptedNote a' ''n1'') = Some False"
    by fastforce
  have s: "(\<Sum>h\<in>resolvedNotes acctSpent (spends tx2). spentValueOf sampleValue acctSpent h) = 5"
    by (simp add: resolvedNotes_def spentValueOf_def List.map_filter_simps getNoteHash_def
        getDecryptedNote_def acctSpent_fields tx2_def) (simp add: scenario_defs)
  from t[THEN conjunct2, THEN conjunct2, THEN conjunct2] rm s
  have b: "getUnconfirmedBalance a' = 5"
    by (simp add: acctSpent_fields)
  from e f b show ?thesis
    by (auto simp: acctSpent_run acctSpent_fields getDecryptedNote_def)
qed

text \<open>
  \<open>tx2\<close> is first synced as Pending and stored with its submitted sequence: synced again
  with the Removed status, the call is not a removal and the note stays spent.
\<close>

theorem pending_then_removed_stays_spent:
  "syncTransaction sampleValue acctMined tx2 [] (Pending 7) = Inr acctPendingSpent \<and>
   map_option spent (getDecryptedNote acctPendingSpent ''n1'') = Some True \<and>
   getUnconfirmedBalance acctPendingSpent = 0 \<and>
   syncTransaction sampleValue acctPendingSpent tx2 [] Removed = Inr acctPendingRemoved \<and>
   map_option spent (getDecryptedNote acctPendingRemoved ''n1'') = Some True \<and>
   getUnconfirmedBalance acctPendingRemoved = 0"
  by (simp add: acctPendingRemoved_def acctPendingSpent_def acctMined_def scenario_defs
      op_defs db_defs)

section \<open>Repeating a synchronization\<close>

lemma seqOk_frame: "transactions a' = transactions a \<Longrightarrow> seqOk a' th = seqOk a th"
  by (simp add: seqOk_def)

lemma saveDecryptedNoteSequence_seqOk:
  "(\<exists>a'. saveDecryptedNoteSequence a th nh = Inr a') = seqOk a th"
  by (auto simp: saveDecryptedNoteSequence_def seqOk_def split: option.splits)

lemma updateDecryptedNote_seqOk:
  "(\<exists>a'. updateDecryptedNote nv a nh n = Inr a') = seqOk a (transactionHash n)"
proof -
  have "seqOk (adjustBalance nv a nh n) (transactionHash n) = seqOk a (transactionHash n)"
    by (rule seqOk_frame) (simp add: adjustBalance_frame)
  with saveDecryptedNoteSequence_seqOk[of "adjustBalance nv a nh n" "transactionHash n" nh]
  show ?thesis
    by (auto simp: updateDecryptedNote_def split: sum.splits)
qed

text \<open>One step of the note loop, for a note that is not spender-derived.\<close>

lemma bulk_step:
  assumes "\<not> forSpender d"
  shows "bulkUpdateDecryptedNotes nv a th (d # ds) =
     (case updateDecryptedNote nv
             (case in_nullifier d of
                Some n \<Rightarrow> updateNullifierNoteHash a n (merkleHash d) | None \<Rightarrow> a)
             (merkleHash d)
             \<lparr>accountId = acc_id a, nullifierHash = in_nullifier d,
              noteIndex = in_noteIndex d, serializedNote = in_serializedNote d,
              spent = False, transactionHash = th\<rparr> of
        Inl e \<Rightarrow> Inl e
      | Inr a2 \<Rightarrow> bulkUpdateDecryptedNotes nv a2 th ds)"
  using assms by (simp add: Let_def updateNullifierNoteHash_frame split: option.splits)

lemma bulk_step':
  assumes "\<not> forSpender d"
  shows "bulkUpdateDecryptedNotes nv a th (d # ds) =
     (case updateDecryptedNote nv (registered a d) (merkleHash d) (receivedNote a th d) of
        Inl e \<Rightarrow> Inl e
      | Inr a2 \<Rightarrow> bulkUpdateDecryptedNotes nv a2 th ds)"
  using bulk_step[OF assms] by (simp add: registered_def receivedNote_def)

lemma registered_frame:
  "transactions (registered a d) = transactions a"
  "decryptedNotes (registered a d) = decryptedNotes a"
  "acc_id (registered a d) = acc_id a"
  "getUnconfirmedBalance (registered a d) = getUnconfirmedBalance a"
  by (simp_all add: registered_def updateNullifierNoteHash_frame split: option.splits)

lemma registered_writes:
  "\<exists>ws. writes (accountsDb (registered a d)) = writes (accountsDb a) @ ws \<and> list_all isNoteWrite ws"
  by (simp add: registered_def updateNullifierNoteHash_def db_saveNullifierNoteHash_def
      isNoteWrite_def split: option.splits)

lemma receivedNote_simps:
  "spent (receivedNote a th d) = False" "transactionHash (receivedNote a th d) = th"
  by (simp_all add: receivedNote_def)

lemma receivedHashes_Cons:
  "receivedHashes (d # ds) =
     (if forSpender d then receivedHashes ds else insert (merkleHash d) (receivedHashes ds))"
  by (simp add: receivedHashes_def)

lemma bulk_cases:
  assumes "bulkUpdateDecryptedNotes nv a th (d # ds) = Inr a'"
  obtains (skip) "forSpender d" "bulkUpdateDecryptedNotes nv a th ds = Inr a'"
  | (step) a2 where "\<not> forSpender d"
      "updateDecryptedNote nv (registered a d) (merkleHash d) (receivedNote a th d) = Inr a2"
      "bulkUpdateDecryptedNotes nv a2 th ds = Inr a'"
proof (cases "forSpender d")
  case True
  with assms skip show ?thesis by simp
next
  case False
  with assms bulk_step'[OF False, of nv a th ds] step show ?thesis
    by (auto split: sum.splits)
qed

lemma bulk_kept:
  assumes "bulkUpdateDecryptedNotes nv a th ds = Inr a'"
    and "getDecryptedNote a h = Some e" and "\<not> spent e" and "transactionHash e = th"
  shows "\<exists>e'. getDecryptedNote a' h = Some e' \<and> \<not> spent e' \<and> transactionHash e' = th"
  using assms
proof (induction ds arbitrary: a e)
  case Nil
  then show ?case by simp
next
  case (Cons d ds)
  from Cons.prems(1) show ?case
  proof (cases rule: bulk_cases)
    case skip
    from Cons.IH[OF skip(2) Cons.prems(2,3,4)] show ?thesis .
  next
    case (step a2)
    from updateDecryptedNote_frame(1)[OF step(2)] Cons.prems(2,3,4)
    have "\<exists>e2. getDecryptedNote a2 h = Some e2 \<and> \<not> spent e2 \<and> transactionHash e2 = th"
      by (auto simp: getDecryptedNote_def update_conv' registered_frame receivedNote_simps)
    then obtain e2 where "getDecryptedNote a2 h = Some e2" "\<not> spent e2" "transactionHash e2 = th"
      by blast
    from Cons.IH[OF step(3) this] show ?thesis .
  qed
qed

lemma bulk_received_unspent:
  assumes "bulkUpdateDecryptedNotes nv a th ds = Inr a'" and "h \<in> receivedHashes ds"
  shows "\<exists>e. getDecryptedNote a' h = Some e \<and> \<not> spent e \<and> transactionHash e = th"
  using assms
proof (induction ds arbitrary: a)
  case Nil
  then show ?case by (simp add: receivedHashes_def)
next
  case (Cons d ds)
  from Cons.prems(1) show ?case
  proof (cases rule: bulk_cases)
    case skip
    with Cons.prems(2) have "h \<in> receivedHashes ds" by (simp add: receivedHashes_Cons)
    from Cons.IH[OF skip(2) this] show ?thesis .
  next
    case (step a2)
    show ?thesis
    proof (cases "h = merkleHash d")
      case True
      with updateDecryptedNote_frame(1)[OF step(2)]
      have "getDecryptedNote a2 h = Some (receivedNote a th d)"
        by (simp add: getDecryptedNote_def update_conv')
      from bulk_kept[OF step(3) this] show ?thesis by (simp add: receivedNote_simps)
    next
      case False
      with Cons.prems(2) step(1) have "h \<in> receivedHashes ds"
        by (simp add: receivedHashes_Cons)
      from Cons.IH[OF step(3) this] show ?thesis .
    qed
  qed
qed

lemma bulk_untouched:
  assumes "bulkUpdateDecryptedNotes nv a th ds = Inr a'" and "h \<notin> receivedHashes ds"
  shows "getDecryptedNote a' h = getDecryptedNote a h"
  using assms
proof (induction ds arbitrary: a)
  case Nil
  then show ?case by simp
next
  case (Cons d ds)
  from Cons.prems(1) show ?case
  proof (cases rule: bulk_cases)
    case skip
    with Cons.prems(2) have "h \<notin> receivedHashes ds" by (simp add: receivedHashes_Cons)
    from Cons.IH[OF skip(2) this] show ?thesis .
  next
    case (step a2)
    with Cons.prems(2) have n: "h \<noteq> merkleHash d" "h \<notin> receivedHashes ds"
      by (simp_all add: receivedHashes_Cons)
    from updateDecryptedNote_frame(1)[OF step(2)] n(1)
    have "getDecryptedNote a2 h = getDecryptedNote a h"
      by (simp add: getDecryptedNote_def update_conv' registered_frame)
    with Cons.IH[OF step(3) n(2)] show ?thesis by simp
  qed
qed

lemma bulk_seqOk:
  assumes "bulkUpdateDecryptedNotes nv a th ds = Inr a'" and "receivedHashes ds \<noteq> {}"
  shows "seqOk a th"
  using assms
proof (induction ds arbitrary: a)
  case Nil
  then show ?case by (simp add: receivedHashes_def)
next
  case (Cons d ds)
  from Cons.prems(1) show ?case
  proof (cases rule: bulk_cases)
    case skip
    with Cons.prems(2) have "receivedHashes ds \<noteq> {}" by (simp add: receivedHashes_Cons)
    from Cons.IH[OF skip(2) this] show ?thesis .
  next
    case (step a2)
    from step(2) have "seqOk (registered a d) (transactionHash (receivedNote a th d))"
      using updateDecryptedNote_seqOk by blast
    then show ?thesis
      by (simp add: receivedNote_simps seqOk_frame[OF registered_frame(1)])
  qed
qed

lemma resolvedNotes_iff:
  "h \<in> resolvedNotes a ns \<longleftrightarrow> (\<exists>n\<in>set ns. getNoteHash a n = Some h)"
  by (induction ns) (auto simp: resolvedNotes_Cons resolvedNotes_def List.map_filter_simps
      split: option.splits)

lemma registered_index:
  "nullifierToNoteHash (registered a d) =
     (case in_nullifier d of
        Some n \<Rightarrow> AList.update n (merkleHash d) (nullifierToNoteHash a)
      | None \<Rightarrow> nullifierToNoteHash a)"
  by (simp add: registered_def updateNullifierNoteHash_frame split: option.splits)

lemma bulk_index:
  assumes "bulkUpdateDecryptedNotes nv a th ds = Inr a'"
  shows "nullifierToNoteHash a' = registerNullifiers ds (nullifierToNoteHash a)"
  using assms
proof (induction ds arbitrary: a)
  case Nil
  then show ?case by simp
next
  case (Cons d ds)
  from Cons.prems(1) show ?case
  proof (cases rule: bulk_cases)
    case skip
    with Cons.IH[OF skip(2)] show ?thesis by simp
  next
    case (step a2)
    from Cons.IH[OF step(3)] updateDecryptedNote_frame(2)[OF step(2)] step(1)
    show ?thesis by (simp add: registered_index)
  qed
qed

lemma registerNullifiers_map:
  "map_of (registerNullifiers ds m) = map_of m ++ map_of (registerNullifiers ds [])"
proof (induction ds arbitrary: m)
  case Nil
  then show ?case by simp
next
  case (Cons d ds)
  show ?case
  proof (cases "forSpender d \<or> in_nullifier d = None")
    case True
    then show ?thesis using Cons.IH[of m] by auto
  next
    case False
    then obtain n where n: "\<not> forSpender d" "in_nullifier d = Some n" by auto
    have "map_of (registerNullifiers (d # ds) m) =
        map_of (AList.update n (merkleHash d) m) ++ map_of (registerNullifiers ds [])"
      using n Cons.IH[of "AList.update n (merkleHash d) m"] by simp
    also have "\<dots> = map_of m ++ ([n \<mapsto> merkleHash d] ++ map_of (registerNullifiers ds []))"
      by (intro ext) (simp add: update_conv' map_add_def split: option.splits)
    also have "[n \<mapsto> merkleHash d] ++ map_of (registerNullifiers ds []) =
        map_of (registerNullifiers (d # ds) [])"
    proof -
      have e1: "registerNullifiers (d # ds) [] = registerNullifiers ds [(n, merkleHash d)]"
        using n by simp
      have e2: "map_of [(n, merkleHash d)] = [n \<mapsto> merkleHash d]" by simp
      show ?thesis
        unfolding e1 Cons.IH[of "[(n, merkleHash d)]"] e2 by (rule refl)
    qed
    finally show ?thesis .
  qed
qed

lemma registerNullifiers_idem:
  "map_of (registerNullifiers ds (registerNullifiers ds m)) = map_of (registerNullifiers ds m)"
proof -
  have "map_of (registerNullifiers ds (registerNullifiers ds m)) =
      map_of (registerNullifiers ds m) ++ map_of (registerNullifiers ds [])"
    by (rule registerNullifiers_map)
  also have "\<dots> = (map_of m ++ map_of (registerNullifiers ds [])) ++ map_of (registerNullifiers ds [])"
    by (simp add: registerNullifiers_map[of ds m])
  also have "\<dots> = map_of m ++ map_of (registerNullifiers ds [])"
    by (intro ext) (simp add: map_add_def split: option.splits)
  finally show ?thesis by (simp add: registerNullifiers_map[of ds m])
qed

lemma note_writes_trans:
  assumes "\<exists>ws. writes (accountsDb b) = writes (accountsDb a) @ ws \<and> list_all isNoteWrite ws"
    and "\<exists>ws. writes (accountsDb c) = writes (accountsDb b) @ ws \<and> list_all isNoteWrite ws"
  shows "\<exists>ws. writes (accountsDb c) = writes (accountsDb a) @ ws \<and> list_all isNoteWrite ws"
  using assms by auto

lemma updateDecryptedNote_idle:
  assumes "getDecryptedNote a h = Some e" and "spent e = spent n" and "seqOk a (transactionHash n)"
  shows "\<exists>a'. updateDecryptedNote nv a h n = Inr a' \<and>
     getUnconfirmedBalance a' = getUnconfirmedBalance a \<and>
     writes (accountsDb a') = writes (accountsDb a) @ [SaveDecryptedNote h n]"
proof -
  from assms(3) obtain a' where u: "updateDecryptedNote nv a h n = Inr a'"
    using updateDecryptedNote_seqOk by blast
  from updateDecryptedNote_frame(5)[OF u] updateDecryptedNote_writes[OF u] assms(1,2) u
  show ?thesis
    by (simp add: getDecryptedNote_def balanceDelta_def)
qed

lemma bulk_idle:
  assumes "receivedSettled a th ds"
  shows "\<exists>a'. bulkUpdateDecryptedNotes nv a th ds = Inr a' \<and>
     getUnconfirmedBalance a' = getUnconfirmedBalance a \<and>
     (\<exists>ws. writes (accountsDb a') = writes (accountsDb a) @ ws \<and> list_all isNoteWrite ws)"
  using assms
proof (induction ds arbitrary: a)
  case Nil
  then show ?case by simp
next
  case (Cons d ds)
  show ?case
  proof (cases "forSpender d")
    case True
    with Cons.prems have "receivedSettled a th ds"
      by (simp add: receivedSettled_def receivedHashes_Cons)
    from Cons.IH[OF this] True show ?thesis by simp
  next
    case False
    let ?r = "registered a d" and ?n = "receivedNote a th d"
    from Cons.prems False obtain e where
      e: "getDecryptedNote a (merkleHash d) = Some e" "\<not> spent e" and ok: "seqOk a th"
      by (auto simp: receivedSettled_def receivedHashes_Cons)
    have "getDecryptedNote ?r (merkleHash d) = Some e"
      using e(1) by (simp add: getDecryptedNote_def registered_frame)
    moreover have "spent e = spent ?n" using e(2) by (simp add: receivedNote_simps)
    moreover have "seqOk ?r (transactionHash ?n)"
      using ok by (simp add: receivedNote_simps seqOk_frame[OF registered_frame(1)])
    ultimately obtain a2 where
      u: "updateDecryptedNote nv ?r (merkleHash d) ?n = Inr a2"
      and b2: "getUnconfirmedBalance a2 = getUnconfirmedBalance ?r"
      and w2: "writes (accountsDb a2) = writes (accountsDb ?r) @ [SaveDecryptedNote (merkleHash d) ?n]"
      using updateDecryptedNote_idle by blast
    have w: "\<exists>ws. writes (accountsDb a2) = writes (accountsDb a) @ ws \<and> list_all isNoteWrite ws"
    proof (rule note_writes_trans[OF registered_writes])
      show "\<exists>ws. writes (accountsDb a2) = writes (accountsDb ?r) @ ws \<and> list_all isNoteWrite ws"
        using w2 by (simp add: isNoteWrite_def)
    qed
    have "receivedSettled a2 th ds"
      unfolding receivedSettled_def
    proof (intro conjI ballI)
      fix h assume "h \<in> receivedHashes ds"
      with Cons.prems False obtain e' where "getDecryptedNote a h = Some e'" "\<not> spent e'"
        by (auto simp: receivedSettled_def receivedHashes_Cons)
      with updateDecryptedNote_frame(1)[OF u]
      show "\<exists>e. getDecryptedNote a2 h = Some e \<and> \<not> spent e"
        by (auto simp: getDecryptedNote_def update_conv' registered_frame receivedNote_simps)
    next
      from ok updateDecryptedNote_frame(3)[OF u]
      show "receivedHashes ds = {} \<or> seqOk a2 th"
        by (simp add: seqOk_def registered_frame)
    qed
    from Cons.IH[OF this] obtain a' where
      r: "bulkUpdateDecryptedNotes nv a2 th ds = Inr a'"
      and b': "getUnconfirmedBalance a' = getUnconfirmedBalance a2"
      and w': "\<exists>ws. writes (accountsDb a') = writes (accountsDb a2) @ ws \<and> list_all isNoteWrite ws"
      by blast
    have "bulkUpdateDecryptedNotes nv a th (d # ds) = Inr a'"
      using bulk_step'[OF False, of nv a th ds] u r by simp
    moreover have "getUnconfirmedBalance a' = getUnconfirmedBalance a"
      using b' b2 by (simp add: registered_frame)
    moreover note note_writes_trans[OF w w']
    ultimately show ?thesis by blast
  qed
qed

lemma processSpends_cases:
  assumes "processSpends nv a (n # ns) b = Inr a'"
  obtains (skip) "getNoteHash a n = None" "processSpends nv a ns b = Inr a'"
  | (step) h e a1 where "getNoteHash a n = Some h" "getDecryptedNote a h = Some e"
      "updateDecryptedNote nv a h (e\<lparr>spent := \<not> b\<rparr>) = Inr a1"
      "processSpends nv a1 ns b = Inr a'"
  using assms by (auto split: option.splits sum.splits)

lemma processSpends_settled_kept:
  assumes "processSpends nv a ns b = Inr a'"
    and "getDecryptedNote a h = Some d" and "spent d = (\<not> b)" and "seqOk a (transactionHash d)"
  shows "\<exists>d'. getDecryptedNote a' h = Some d' \<and> spent d' = (\<not> b) \<and>
     seqOk a' (transactionHash d')"
  using assms
proof (induction ns arbitrary: a d)
  case Nil
  then show ?case by simp
next
  case (Cons n ns)
  from Cons.prems(1) show ?case
  proof (cases rule: processSpends_cases)
    case skip
    from Cons.IH[OF skip(2) Cons.prems(2,3,4)] show ?thesis .
  next
    case (step h' e a1)
    from updateDecryptedNote_frame(1)[OF step(3)] Cons.prems(2,3,4) step(2)
    have "\<exists>d1. getDecryptedNote a1 h = Some d1 \<and> spent d1 = (\<not> b) \<and>
        seqOk a1 (transactionHash d1)"
      by (auto simp: getDecryptedNote_def update_conv'
          seqOk_frame[OF updateDecryptedNote_frame(3)[OF step(3)]])
    then obtain d1 where "getDecryptedNote a1 h = Some d1" "spent d1 = (\<not> b)"
      "seqOk a1 (transactionHash d1)" by blast
    from Cons.IH[OF step(4) this] show ?thesis .
  qed
qed

lemma processSpends_settles:
  assumes "processSpends nv a ns b = Inr a'"
  shows "spendsSettled a' ns b"
proof -
  have "\<exists>d'. getDecryptedNote a' h = Some d' \<and> spent d' = (\<not> b) \<and>
      seqOk a' (transactionHash d')"
    if "n \<in> set ns" "getNoteHash a n = Some h" for n h
    using assms that
  proof (induction ns arbitrary: a)
    case Nil
    then show ?case by simp
  next
    case (Cons x ns)
    from Cons.prems(1) show ?case
    proof (cases rule: processSpends_cases)
      case skip
      with Cons.prems(2,3) have "n \<in> set ns" by auto
      from Cons.IH[OF skip(2) this Cons.prems(3)] show ?thesis .
    next
      case (step h' e a1)
      have idx: "getNoteHash a1 n = Some h"
        using updateDecryptedNote_frame(2)[OF step(3)] Cons.prems(3) by (simp add: getNoteHash_def)
      show ?thesis
      proof (cases "x = n")
        case True
        with step(1) Cons.prems(3) have hh: "h' = h" by simp
        from step(3) have "seqOk a (transactionHash (e\<lparr>spent := \<not> b\<rparr>))"
          using updateDecryptedNote_seqOk by blast
        then have ok: "seqOk a1 (transactionHash (e\<lparr>spent := \<not> b\<rparr>))"
          by (simp add: seqOk_frame[OF updateDecryptedNote_frame(3)[OF step(3)]])
        have sp: "spent (e\<lparr>spent := \<not> b\<rparr>) = (\<not> b)" by simp
        from hh updateDecryptedNote_frame(1)[OF step(3)]
        have "getDecryptedNote a1 h = Some (e\<lparr>spent := \<not> b\<rparr>)"
          by (simp add: getDecryptedNote_def update_conv')
        from processSpends_settled_kept[OF step(4) this sp ok] show ?thesis .
      next
        case False
        with Cons.prems(2) have "n \<in> set ns" by simp
        from Cons.IH[OF step(4) this idx] show ?thesis .
      qed
    qed
  qed
  note post = this
  have eq: "resolvedNotes a' ns = resolvedNotes a ns"
    using processSpends_frame[OF assms] by (intro resolvedNotes_index) simp
  show ?thesis
    unfolding spendsSettled_def eq
  proof
    fix h assume "h \<in> resolvedNotes a ns"
    then obtain n where "n \<in> set ns" "getNoteHash a n = Some h"
      unfolding resolvedNotes_iff by blast
    from post[OF this]
    show "\<exists>e. getDecryptedNote a' h = Some e \<and> spent e = (\<not> b) \<and> seqOk a' (transactionHash e)" .
  qed
qed

lemma processSpends_untouched:
  assumes "processSpends nv a ns b = Inr a'" and "h \<notin> resolvedNotes a ns"
  shows "getDecryptedNote a' h = getDecryptedNote a h"
  using assms
proof (induction ns arbitrary: a)
  case Nil
  then show ?case by simp
next
  case (Cons n ns)
  from Cons.prems(1) show ?case
  proof (cases rule: processSpends_cases)
    case skip
    with Cons.prems(2) have "h \<notin> resolvedNotes a ns" by (simp add: resolvedNotes_Cons)
    from Cons.IH[OF skip(2) this] show ?thesis .
  next
    case (step h' e a1)
    with Cons.prems(2) have n: "h \<noteq> h'" "h \<notin> resolvedNotes a ns"
      by (auto simp: resolvedNotes_Cons)
    have "resolvedNotes a1 ns = resolvedNotes a ns"
      by (rule resolvedNotes_index[OF updateDecryptedNote_frame(2)[OF step(3)]])
    with n(2) have "h \<notin> resolvedNotes a1 ns" by simp
    from Cons.IH[OF step(4) this] updateDecryptedNote_frame(1)[OF step(3)] n(1)
    show ?thesis by (simp add: getDecryptedNote_def update_conv')
  qed
qed

lemma processSpends_idle:
  assumes "spendsSettled a ns b"
  shows "\<exists>a'. processSpends nv a ns b = Inr a' \<and>
     getUnconfirmedBalance a' = getUnconfirmedBalance a \<and>
     (\<exists>ws. writes (accountsDb a') = writes (accountsDb a) @ ws \<and> list_all isNoteWrite ws)"
  using assms
proof (induction ns arbitrary: a)
  case Nil
  then show ?case by simp
next
  case (Cons n ns)
  show ?case
  proof (cases "getNoteHash a n")
    case None
    with Cons.prems have "spendsSettled a ns b"
      by (simp add: spendsSettled_def resolvedNotes_Cons)
    from Cons.IH[OF this] None show ?thesis by simp
  next
    case (Some h)
    with Cons.prems obtain e where
      e: "getDecryptedNote a h = Some e" "spent e = (\<not> b)" "seqOk a (transactionHash e)"
      by (auto simp: spendsSettled_def resolvedNotes_Cons)
    let ?n = "e\<lparr>spent := \<not> b\<rparr>"
    have "spent e = spent ?n" unfolding e(2) by simp
    moreover have "seqOk a (transactionHash ?n)" using e(3) by simp
    ultimately obtain a1 where
      u: "updateDecryptedNote nv a h ?n = Inr a1"
      and b1: "getUnconfirmedBalance a1 = getUnconfirmedBalance a"
      and w1: "writes (accountsDb a1) = writes (accountsDb a) @ [SaveDecryptedNote h ?n]"
      using updateDecryptedNote_idle[OF e(1)] by blast
    have w: "\<exists>ws. writes (accountsDb a1) = writes (accountsDb a) @ ws \<and> list_all isNoteWrite ws"
      using w1 by (simp add: isNoteWrite_def)
    have r1: "resolvedNotes a1 ns = resolvedNotes a ns"
      by (rule resolvedNotes_index[OF updateDecryptedNote_frame(2)[OF u]])
    have "spendsSettled a1 ns b"
      unfolding spendsSettled_def r1
    proof
      fix h' assume "h' \<in> resolvedNotes a ns"
      with Cons.prems Some have "h' \<in> resolvedNotes a (n # ns)"
        by (simp add: resolvedNotes_Cons)
      with Cons.prems obtain e' where
        e': "getDecryptedNote a h' = Some e'" "spent e' = (\<not> b)" "seqOk a (transactionHash e')"
        unfolding spendsSettled_def by blast
      note ok = seqOk_frame[OF updateDecryptedNote_frame(3)[OF u]]
      show "\<exists>e. getDecryptedNote a1 h' = Some e \<and> spent e = (\<not> b) \<and>
          seqOk a1 (transactionHash e)"
      proof (cases "h' = h")
        case True
        have "getDecryptedNote a1 h' = Some ?n"
          using updateDecryptedNote_frame(1)[OF u] True
          by (simp add: getDecryptedNote_def update_conv')
        moreover have "spent ?n = (\<not> b)" by simp
        moreover have "seqOk a1 (transactionHash ?n)" using e(3) by (simp add: ok)
        ultimately show ?thesis by blast
      next
        case False
        then have "getDecryptedNote a1 h' = Some e'"
          using updateDecryptedNote_frame(1)[OF u] e'(1)
          by (simp add: getDecryptedNote_def update_conv')
        moreover have "seqOk a1 (transactionHash e')" using e'(3) by (simp add: ok)
        ultimately show ?thesis using e'(2) by blast
      qed
    qed
    from Cons.IH[OF this] obtain a' where
      r: "processSpends nv a1 ns b = Inr a'"
      and b': "getUnconfirmedBalance a' = getUnconfirmedBalance a1"
      and w': "\<exists>ws. writes (accountsDb a') = writes (accountsDb a1) @ ws \<and> list_all isNoteWrite ws"
      by blast
    have "processSpends nv a (n # ns) b = Inr a'"
      using Some e(1) u r by simp
    moreover have "getUnconfirmedBalance a' = getUnconfirmedBalance a"
      using b' b1 by simp
    moreover note note_writes_trans[OF w w']
    ultimately show ?thesis by blast
  qed
qed

lemma processSpends_transactionHash_kept:
  assumes "processSpends nv a ns b = Inr a'"
    and "getDecryptedNote a h = Some d" and "getDecryptedNote a' h = Some d'"
  shows "transactionHash d' = transactionHash d"
  using assms
proof (induction ns arbitrary: a d)
  case Nil
  then show ?case by simp
next
  case (Cons n ns)
  from Cons.prems(1) show ?case
  proof (cases rule: processSpends_cases)
    case skip
    from Cons.IH[OF skip(2) Cons.prems(2,3)] show ?thesis .
  next
    case (step h' e a1)
    show ?thesis
    proof (cases "h' = h")
      case True
      with step(2) Cons.prems(2) have "e = d" by simp
      with True updateDecryptedNote_frame(1)[OF step(3)]
      have "getDecryptedNote a1 h = Some (d\<lparr>spent := \<not> b\<rparr>)"
        by (simp add: getDecryptedNote_def update_conv')
      from Cons.IH[OF step(4) this Cons.prems(3)] show ?thesis by simp
    next
      case False
      with updateDecryptedNote_frame(1)[OF step(3)] Cons.prems(2)
      have "getDecryptedNote a1 h = Some d"
        by (simp add: getDecryptedNote_def update_conv')
      from Cons.IH[OF step(4) this Cons.prems(3)] show ?thesis .
    qed
  qed
qed

lemma syncTransactionRecord_frame:
  "decryptedNotes (syncTransactionRecord a t params) = decryptedNotes a"
  "nullifierToNoteHash (syncTransactionRecord a t params) = nullifierToNoteHash a"
  "getUnconfirmedBalance (syncTransactionRecord a t params) = getUnconfirmedBalance a"
  by (simp_all add: syncTransactionRecord_def updateTransaction_def getUnconfirmedBalance_def
      db_getUnconfirmedBalance_def db_saveTransaction_def)

lemma syncTransactionRecord_settled:
  fixes a t params
  defines "ar \<equiv> syncTransactionRecord a t params"
  shows "\<not> shouldUpdateTransaction ar t params"
    and "mergedSubmittedSequence ar t params = mergedSubmittedSequence a t params"
proof -
  show "\<not> shouldUpdateTransaction ar t params"
    by (cases "map_of (transactions a) (unsignedHash t)")
       (auto simp: ar_def syncTransactionRecord_def shouldUpdateTransaction_def
         updateTransaction_def update_conv')
  show "mergedSubmittedSequence ar t params = mergedSubmittedSequence a t params"
    by (cases "map_of (transactions a) (unsignedHash t)")
       (auto simp: ar_def syncTransactionRecord_def shouldUpdateTransaction_def
         mergedSubmittedSequence_def updateTransaction_def update_conv')
qed

lemma record_tests_frame:
  assumes "transactions a' = transactions a"
  shows "shouldUpdateTransaction a' t params = shouldUpdateTransaction a t params"
    and "mergedSubmittedSequence a' t params = mergedSubmittedSequence a t params"
    and "isRemovingTransaction a' t params = isRemovingTransaction a t params"
  using assms
  by (simp_all add: shouldUpdateTransaction_def mergedSubmittedSequence_def
      isRemovingTransaction_def)

lemma noteWrite_kinds:
  "list_all isNoteWrite ws \<Longrightarrow>
     filter isSaveTransaction ws = [] \<and> filter isSaveUnconfirmedBalance ws = []"
  by (induction ws)
     (auto simp: isNoteWrite_def isSaveTransaction_def isSaveUnconfirmedBalance_def
       split: dbWrite.splits)

text \<open>The writes that the two loops make, whatever they find stored.\<close>

lemma receivedNote_acc_id:
  "acc_id a' = acc_id a \<Longrightarrow> receivedNote a' th d = receivedNote a th d"
  by (simp add: receivedNote_def)

lemma registered_writes_exact:
  "writes (accountsDb (registered a d)) =
     writes (accountsDb a) @
       (case in_nullifier d of Some n \<Rightarrow> [SaveNullifierNoteHash n (merkleHash d)] | None \<Rightarrow> [])"
  by (simp add: registered_def updateNullifierNoteHash_def db_saveNullifierNoteHash_def
      split: option.splits)

lemma bulk_writes_contain:
  assumes "bulkUpdateDecryptedNotes nv a th ds = Inr a'"
  shows "\<exists>ws. writes (accountsDb a') = writes (accountsDb a) @ ws \<and>
     (\<forall>d\<in>set ds. \<not> forSpender d \<longrightarrow>
        SaveDecryptedNote (merkleHash d) (receivedNote a th d) \<in> set ws \<and>
        (\<forall>n. in_nullifier d = Some n \<longrightarrow> SaveNullifierNoteHash n (merkleHash d) \<in> set ws))"
  using assms
proof (induction ds arbitrary: a)
  case Nil
  then show ?case by simp
next
  case (Cons d ds)
  from Cons.prems(1) show ?case
  proof (cases rule: bulk_cases)
    case skip
    from Cons.IH[OF skip(2)] skip(1) show ?thesis by auto
  next
    case (step a2)
    have id2: "acc_id a2 = acc_id a"
      using updateDecryptedNote_frame(4)[OF step(2)] by (simp add: registered_frame)
    from updateDecryptedNote_writes[OF step(2)] obtain us where
      w2: "writes (accountsDb a2) = writes (accountsDb (registered a d)) @ us"
      and u2: "SaveDecryptedNote (merkleHash d) (receivedNote a th d) \<in> set us"
      by auto
    from Cons.IH[OF step(3)] obtain ws where
      w: "writes (accountsDb a') = writes (accountsDb a2) @ ws"
      and c: "\<forall>d\<in>set ds. \<not> forSpender d \<longrightarrow>
        SaveDecryptedNote (merkleHash d) (receivedNote a2 th d) \<in> set ws \<and>
        (\<forall>n. in_nullifier d = Some n \<longrightarrow> SaveNullifierNoteHash n (merkleHash d) \<in> set ws)"
      by blast
    let ?rs = "case in_nullifier d of Some n \<Rightarrow> [SaveNullifierNoteHash n (merkleHash d)] | None \<Rightarrow> []"
    have "writes (accountsDb a') = writes (accountsDb a) @ (?rs @ us @ ws)"
      by (simp add: w w2 registered_writes_exact)
    moreover have "\<forall>d'\<in>set (d # ds). \<not> forSpender d' \<longrightarrow>
        SaveDecryptedNote (merkleHash d') (receivedNote a th d') \<in> set (?rs @ us @ ws) \<and>
        (\<forall>n. in_nullifier d' = Some n \<longrightarrow>
           SaveNullifierNoteHash n (merkleHash d') \<in> set (?rs @ us @ ws))"
      using c u2 by (auto simp: receivedNote_acc_id[OF id2])
    ultimately show ?thesis by blast
  qed
qed

lemma processSpends_writes_contain:
  assumes "processSpends nv a ns b = Inr a'"
  shows "\<exists>ws. writes (accountsDb a') = writes (accountsDb a) @ ws \<and>
     (\<forall>h\<in>resolvedNotes a ns. \<exists>n. SaveDecryptedNote h n \<in> set ws)"
  using assms
proof (induction ns arbitrary: a)
  case Nil
  then show ?case by (simp add: resolvedNotes_def List.map_filter_simps)
next
  case (Cons x ns)
  from Cons.prems(1) show ?case
  proof (cases rule: processSpends_cases)
    case skip
    from Cons.IH[OF skip(2)] skip(1) show ?thesis by (simp add: resolvedNotes_Cons)
  next
    case (step h e a1)
    from updateDecryptedNote_writes[OF step(3)] obtain us where
      w1: "writes (accountsDb a1) = writes (accountsDb a) @ us"
      and u1: "SaveDecryptedNote h (e\<lparr>spent := \<not> b\<rparr>) \<in> set us"
      by auto
    have r: "resolvedNotes a1 ns = resolvedNotes a ns"
      by (rule resolvedNotes_index[OF updateDecryptedNote_frame(2)[OF step(3)]])
    from Cons.IH[OF step(4)] obtain ws where
      w: "writes (accountsDb a') = writes (accountsDb a1) @ ws"
      and c: "\<forall>h\<in>resolvedNotes a ns. \<exists>n. SaveDecryptedNote h n \<in> set ws"
      unfolding r by blast
    have "writes (accountsDb a') = writes (accountsDb a) @ (us @ ws)"
      by (simp add: w w1)
    moreover have "\<forall>h'\<in>resolvedNotes a (x # ns). \<exists>n. SaveDecryptedNote h' n \<in> set (us @ ws)"
      using c u1 step(1) by (auto simp: resolvedNotes_Cons)
    ultimately show ?thesis by blast
  qed
qed

text \<open>
  C1. When \<open>syncTransaction\<close> has returned and is repeated at once with the same
  transaction, the same decrypted notes and the same status, and the call is a removal or
  none of its spends resolves to one of its own received notes, the second call returns too
  and leaves the unconfirmed balance as it was. It makes no \<open>saveTransaction\<close> and no
  \<open>saveUnconfirmedBalance\<close> call: it writes to the store only notes and nullifier mappings.
  It does save again every received note, the nullifier mapping of every received note that
  has a nullifier, and every note that a spend of the transaction resolves to.
\<close>

theorem syncTransaction_repeated:
  assumes "syncTransaction nv a t ds params = Inr a1"
    and "isRemovingTransaction a t params \<or>
         resolvedNotes a1 (spends t) \<inter> receivedHashes ds = {}"
  shows "\<exists>a2. syncTransaction nv a1 t ds params = Inr a2 \<and>
     getUnconfirmedBalance a2 = getUnconfirmedBalance a1 \<and>
     (\<exists>ws. writes (accountsDb a2) = writes (accountsDb a1) @ ws \<and>
           list_all isNoteWrite ws \<and>
           filter isSaveTransaction ws = [] \<and> filter isSaveUnconfirmedBalance ws = [] \<and>
           (\<forall>d\<in>set ds. \<not> forSpender d \<longrightarrow>
              SaveDecryptedNote (merkleHash d) (receivedNote a1 (unsignedHash t) d) \<in> set ws \<and>
              (\<forall>n. in_nullifier d = Some n \<longrightarrow>
                 SaveNullifierNoteHash n (merkleHash d) \<in> set ws)) \<and>
           (\<forall>h\<in>resolvedNotes a1 (spends t). \<exists>n. SaveDecryptedNote h n \<in> set ws))"
proof -
  define th where "th = unsignedHash t"
  define rem where "rem = isRemovingTransaction a t params"
  define ar where "ar = syncTransactionRecord a t params"
  from assms(1) obtain ab where
    bulk1: "bulkUpdateDecryptedNotes nv ar th ds = Inr ab"
    and sp1: "processSpends nv ab (spends t) rem = Inr a1"
    by (auto simp: syncTransaction_def processTransactionSpends_def th_def rem_def ar_def
        split: sum.splits)
  have tr: "transactions a1 = transactions ar"
    using bulkUpdateDecryptedNotes_frame[OF bulk1] processSpends_frame[OF sp1] by simp
  have idx1: "nullifierToNoteHash a1 = nullifierToNoteHash ab"
    using processSpends_frame[OF sp1] by simp
  have res1: "resolvedNotes a1 (spends t) = resolvedNotes ab (spends t)"
    by (rule resolvedNotes_index[OF idx1])
  \<comment> \<open>the record is settled, and the second call is a removal exactly if the first is\<close>
  have rec: "syncTransactionRecord a1 t params = a1"
    using syncTransactionRecord_settled(1)[of a t params] record_tests_frame(1)[OF tr]
    by (simp add: syncTransactionRecord_def ar_def)
  have rem2: "isRemovingTransaction a1 t params = rem"
    using syncTransactionRecord_settled(2)[of a t params] record_tests_frame(2)[OF tr]
    by (simp add: isRemovingTransaction_def rem_def ar_def)
  \<comment> \<open>after the first call every received note is stored unspent\<close>
  have recv1: "\<exists>e. getDecryptedNote a1 h = Some e \<and> \<not> spent e \<and> transactionHash e = th"
    if h: "h \<in> receivedHashes ds" for h
  proof -
    from bulk_received_unspent[OF bulk1 h] obtain e where
      e: "getDecryptedNote ab h = Some e" "\<not> spent e" "transactionHash e = th" by blast
    show ?thesis
    proof (cases rem)
      case True
      have sp1': "processSpends nv ab (spends t) True = Inr a1" using sp1 True by simp
      have "spent e = (\<not> True)" using e(2) by simp
      from processSpends_flag_kept[OF sp1' e(1) this]
      obtain d' where d': "getDecryptedNote a1 h = Some d'" "\<not> spent d'" by auto
      from sp1 e(1) have "transactionHash d' = th"
        using processSpends_transactionHash_kept d'(1) e(3) by blast
      with d' show ?thesis by blast
    next
      case False
      with assms(2) h have "h \<notin> resolvedNotes ab (spends t)"
        by (auto simp: rem_def res1)
      from processSpends_untouched[OF sp1 this] e show ?thesis by simp
    qed
  qed
  have ok1: "receivedHashes ds = {} \<or> seqOk a1 th"
    using bulk_seqOk[OF bulk1] seqOk_frame[OF tr] by auto
  have "receivedSettled a1 th ds"
    unfolding receivedSettled_def using recv1 ok1 by blast
  from bulk_idle[OF this, of nv] obtain ab' where
    bulk2: "bulkUpdateDecryptedNotes nv a1 th ds = Inr ab'"
    and bal2: "getUnconfirmedBalance ab' = getUnconfirmedBalance a1"
    and wr2: "\<exists>ws. writes (accountsDb ab') = writes (accountsDb a1) @ ws \<and> list_all isNoteWrite ws"
    by blast
  \<comment> \<open>the second note loop leaves the Nullifier Index as it was, as a map\<close>
  have "map_of (nullifierToNoteHash ab') = map_of (nullifierToNoteHash a1)"
    using bulk_index[OF bulk1] bulk_index[OF bulk2] idx1
    by (simp add: registerNullifiers_idem)
  then have look: "getNoteHash ab' = getNoteHash a1"
    by (intro ext) (simp add: getNoteHash_def)
  then have res2: "resolvedNotes ab' (spends t) = resolvedNotes a1 (spends t)"
    by (simp add: resolvedNotes_def)
  have tr2: "transactions ab' = transactions a1"
    using bulkUpdateDecryptedNotes_frame[OF bulk2] by simp
  \<comment> \<open>every note that a spend resolves to already has its flag\<close>
  have "spendsSettled ab' (spends t) rem"
    unfolding spendsSettled_def res2
  proof
    fix h assume h: "h \<in> resolvedNotes a1 (spends t)"
    with processSpends_settles[OF sp1] obtain e where
      e: "getDecryptedNote a1 h = Some e" "spent e = (\<not> rem)" "seqOk a1 (transactionHash e)"
      unfolding spendsSettled_def by blast
    show "\<exists>e. getDecryptedNote ab' h = Some e \<and> spent e = (\<not> rem) \<and>
        seqOk ab' (transactionHash e)"
    proof (cases "h \<in> receivedHashes ds")
      case True
      from recv1[OF True] e(1,2) have r: "rem" by auto
      from bulk_received_unspent[OF bulk2 True] obtain e' where
        e': "getDecryptedNote ab' h = Some e'" "\<not> spent e'" "transactionHash e' = th" by blast
      from True ok1 have "seqOk ab' th" by (auto simp: seqOk_frame[OF tr2])
      with e' r show ?thesis by auto
    next
      case False
      from bulk_untouched[OF bulk2 False] e show ?thesis
        by (simp add: seqOk_frame[OF tr2])
    qed
  qed
  from processSpends_idle[OF this, of nv] obtain a2 where
    sp2: "processSpends nv ab' (spends t) rem = Inr a2"
    and bal3: "getUnconfirmedBalance a2 = getUnconfirmedBalance ab'"
    and wr3: "\<exists>ws. writes (accountsDb a2) = writes (accountsDb ab') @ ws \<and> list_all isNoteWrite ws"
    by blast
  have "syncTransaction nv a1 t ds params = Inr a2"
    using bulk2 sp2 by (simp add: syncTransaction_def processTransactionSpends_def rec rem2 th_def)
  moreover have "getUnconfirmedBalance a2 = getUnconfirmedBalance a1"
    using bal2 bal3 by simp
  moreover have "\<exists>ws. writes (accountsDb a2) = writes (accountsDb a1) @ ws \<and>
           list_all isNoteWrite ws \<and>
           filter isSaveTransaction ws = [] \<and> filter isSaveUnconfirmedBalance ws = [] \<and>
           (\<forall>d\<in>set ds. \<not> forSpender d \<longrightarrow>
              SaveDecryptedNote (merkleHash d) (receivedNote a1 (unsignedHash t) d) \<in> set ws \<and>
              (\<forall>n. in_nullifier d = Some n \<longrightarrow>
                 SaveNullifierNoteHash n (merkleHash d) \<in> set ws)) \<and>
           (\<forall>h\<in>resolvedNotes a1 (spends t). \<exists>n. SaveDecryptedNote h n \<in> set ws)"
  proof -
    from bulk_writes_contain[OF bulk2] obtain ws1 where
      w1: "writes (accountsDb ab') = writes (accountsDb a1) @ ws1"
      and c1: "\<forall>d\<in>set ds. \<not> forSpender d \<longrightarrow>
        SaveDecryptedNote (merkleHash d) (receivedNote a1 th d) \<in> set ws1 \<and>
        (\<forall>n. in_nullifier d = Some n \<longrightarrow> SaveNullifierNoteHash n (merkleHash d) \<in> set ws1)"
      by blast
    from processSpends_writes_contain[OF sp2] obtain ws2 where
      w2: "writes (accountsDb a2) = writes (accountsDb ab') @ ws2"
      and c2: "\<forall>h\<in>resolvedNotes a1 (spends t). \<exists>n. SaveDecryptedNote h n \<in> set ws2"
      unfolding res2 by blast
    from wr2 w1 have n1: "list_all isNoteWrite ws1" by auto
    from wr3 w2 have n2: "list_all isNoteWrite ws2" by auto
    have w: "writes (accountsDb a2) = writes (accountsDb a1) @ (ws1 @ ws2)"
      by (simp add: w1 w2)
    have n: "list_all isNoteWrite (ws1 @ ws2)" using n1 n2 by simp
    have c1': "\<forall>d\<in>set ds. \<not> forSpender d \<longrightarrow>
        SaveDecryptedNote (merkleHash d) (receivedNote a1 (unsignedHash t) d) \<in> set (ws1 @ ws2) \<and>
        (\<forall>n. in_nullifier d = Some n \<longrightarrow>
           SaveNullifierNoteHash n (merkleHash d) \<in> set (ws1 @ ws2))"
      using c1 by (auto simp: th_def)
    have c2': "\<forall>h\<in>resolvedNotes a1 (spends t). \<exists>n. SaveDecryptedNote h n \<in> set (ws1 @ ws2)"
      using c2 by auto
    from w n noteWrite_kinds[OF n] c1' c2' show ?thesis by blast
  qed
  ultimately show ?thesis by blast
qed

lemma acctChange_run:
  "syncTransaction sampleValue acctMined tx3 [in2] (Mined ''b3'' 12) = Inr acctChange"
  by (simp add: acctChange_def acctMined_def tx3_def in2_def scenario_defs op_defs db_defs)

lemma acctChange_fields:
  "nullifierToNoteHash acctChange = [(''x1'', ''n1''), (''x2'', ''n2'')]"
  "getUnconfirmedBalance acctChange = 3"
  by (simp_all add: acctChange_def acctMined_def tx3_def in2_def scenario_defs op_defs db_defs)

theorem syncTransaction_repeated_witness:
  "syncTransaction sampleValue acctMined tx3 [in2] (Mined ''b3'' 12) = Inr acctChange \<and>
   resolvedNotes acctChange (spends tx3) = {''n1''} \<and> receivedHashes [in2] = {''n2''} \<and>
   (\<exists>a2. syncTransaction sampleValue acctChange tx3 [in2] (Mined ''b3'' 12) = Inr a2 \<and>
      getUnconfirmedBalance a2 = 3 \<and>
      (\<exists>ws. writes (accountsDb a2) = writes (accountsDb acctChange) @ ws \<and>
            filter isSaveTransaction ws = [] \<and> filter isSaveUnconfirmedBalance ws = [] \<and>
            SaveDecryptedNote ''n2'' (receivedNote acctChange ''t3'' in2) \<in> set ws \<and>
            SaveNullifierNoteHash ''x2'' ''n2'' \<in> set ws \<and>
            (\<exists>n. SaveDecryptedNote ''n1'' n \<in> set ws)))"
proof -
  have r: "resolvedNotes acctChange (spends tx3) = {''n1''}"
    by (simp add: resolvedNotes_def getNoteHash_def acctChange_fields tx3_def
        List.map_filter_simps)
  have h: "receivedHashes [in2] = {''n2''}"
    by (simp add: receivedHashes_def in2_def)
  have "isRemovingTransaction acctMined tx3 (Mined ''b3'' 12) \<or>
      resolvedNotes acctChange (spends tx3) \<inter> receivedHashes [in2] = {}"
    by (simp add: r h)
  from syncTransaction_repeated[OF acctChange_run this] obtain a2 ws where
    e: "syncTransaction sampleValue acctChange tx3 [in2] (Mined ''b3'' 12) = Inr a2"
    and b: "getUnconfirmedBalance a2 = getUnconfirmedBalance acctChange"
    and w: "writes (accountsDb a2) = writes (accountsDb acctChange) @ ws"
      "filter isSaveTransaction ws = []" "filter isSaveUnconfirmedBalance ws = []"
    and c: "\<forall>d\<in>set [in2]. \<not> forSpender d \<longrightarrow>
              SaveDecryptedNote (merkleHash d) (receivedNote acctChange (unsignedHash tx3) d) \<in> set ws \<and>
              (\<forall>n. in_nullifier d = Some n \<longrightarrow>
                 SaveNullifierNoteHash n (merkleHash d) \<in> set ws)"
      "\<forall>h\<in>resolvedNotes acctChange (spends tx3). \<exists>n. SaveDecryptedNote h n \<in> set ws"
    by blast
  from c(1) have "SaveDecryptedNote ''n2'' (receivedNote acctChange ''t3'' in2) \<in> set ws"
    "SaveNullifierNoteHash ''x2'' ''n2'' \<in> set ws"
    by (simp_all add: in2_def tx3_def)
  moreover from c(2) have "\<exists>n. SaveDecryptedNote ''n1'' n \<in> set ws"
    unfolding r by simp
  ultimately show ?thesis
    using e b w r h acctChange_run by (auto simp: acctChange_fields)
qed

text \<open>
  The second call does write to the store: it saves again the nullifier mapping and the note
  of every received note.
\<close>

theorem repeated_sync_writes_note:
  "syncTransaction sampleValue acct0 tx1 [in1] (Mined ''b1'' 10) = Inr acctMined \<and>
   syncTransaction sampleValue acctMined tx1 [in1] (Mined ''b1'' 10) = Inr acctMinedAgain \<and>
   writes (accountsDb acctMinedAgain) =
     writes (accountsDb acctMined) @
       [SaveNullifierNoteHash ''x1'' ''n1'', SaveDecryptedNote ''n1'' note1]"
  by (simp add: acctMinedAgain_def acctMined_def scenario_defs op_defs db_defs)

text \<open>
  When a spend of the transaction resolves to one of its own received notes and the call is
  not a removal, the second call turns the note to unspent and back to spent, and saves the
  balance twice.
\<close>

lemma self_spend_repeated_writes_balance:
  "syncTransaction sampleValue acct0 tx4 [in5] (Mined ''b4'' 10) = Inr acctSelfSpend \<and>
   syncTransaction sampleValue acctSelfSpend tx4 [in5] (Mined ''b4'' 10) = Inr acctSelfSpendAgain \<and>
   filter isSaveUnconfirmedBalance
     (drop (length (writes (accountsDb acctSelfSpend))) (writes (accountsDb acctSelfSpendAgain))) =
     [SaveUnconfirmedBalance 5, SaveUnconfirmedBalance 0]"
  by (simp add: acctSelfSpendAgain_def acctSelfSpend_def tx4_def in5_def scenario_defs op_defs
      db_defs isSaveUnconfirmedBalance_def)

section \<open>Saving and loading\<close>

lemma fold_update_map:
  "map_of (fold (\<lambda>(k, v). AList.update k v) xs m) = map_of m ++ map_of (rev xs)"
proof (induction xs arbitrary: m)
  case Nil
  then show ?case by simp
next
  case (Cons x xs)
  obtain k v where x: "x = (k, v)" by (cases x)
  have "map_of (fold (\<lambda>(k, v). AList.update k v) (x # xs) m) =
      map_of (AList.update k v m) ++ map_of (rev xs)"
    using Cons.IH[of "AList.update k v m"] by (simp add: x)
  also have "\<dots> = map_of m ++ map_of (rev (x # xs))"
    by (intro ext) (simp add: x update_conv' map_add_def split: option.splits)
  finally show ?case .
qed

lemma map_of_rev_distinct:
  "distinct (map fst xs) \<Longrightarrow> map_of (rev xs) = map_of xs"
proof (induction xs)
  case Nil
  then show ?case by simp
next
  case (Cons x xs)
  then have "map_of xs (fst x) = None"
    by (simp add: map_of_eq_None_iff)
  with Cons show ?case
    by (intro ext) (auto simp: map_add_def split: option.splits)
qed

lemma db_loadInto_distinct:
  "distinct (map fst xs) \<Longrightarrow> map_of (db_loadInto xs []) = map_of xs"
  by (simp add: db_loadInto_def fold_update_map map_of_rev_distinct)

lemma loadNotesLoop_result:
  assumes "list_all (\<lambda>(h, n). accountId n = acc_id a \<and> seqOk a (transactionHash n)) xs"
  shows "\<exists>a'. loadNotesLoop nv a xs bal =
        Inr (a', bal + sum_list (map (\<lambda>(h, n). nv (serializedNote n))
                               (filter (\<lambda>(h, n). \<not> spent n \<and> True) xs))) \<and>
      transactions a' = transactions a \<and> nullifierToNoteHash a' = nullifierToNoteHash a \<and>
      accountsDb a' = accountsDb a \<and>
      decryptedNotes a' = fold (\<lambda>(k, v). AList.update k v) xs (decryptedNotes a)"
  using assms
proof (induction xs arbitrary: a bal)
  case Nil
  then show ?case by simp
next
  case (Cons x xs)
  obtain h n where x: "x = (h, n)" by (cases x)
  let ?a1 = "a\<lparr>decryptedNotes := AList.update h n (decryptedNotes a)\<rparr>"
  from Cons.prems have own: "accountId n = acc_id a" and ok: "seqOk a (transactionHash n)"
    and rest: "list_all (\<lambda>(h, n). accountId n = acc_id a \<and> seqOk a (transactionHash n)) xs"
    by (simp_all add: x)
  have "seqOk ?a1 (transactionHash n)" using ok by (simp add: seqOk_def)
  then obtain a2 where s: "saveDecryptedNoteSequence ?a1 (transactionHash n) h = Inr a2"
    using saveDecryptedNoteSequence_seqOk by blast
  note f = saveDecryptedNoteSequence_frame[OF s]
  have "list_all (\<lambda>(h, n). accountId n = acc_id a2 \<and> seqOk a2 (transactionHash n)) xs"
    using rest f by (simp add: seqOk_def)
  from Cons.IH[OF this, of "if \<not> spent n then bal + nv (serializedNote n) else bal"]
  obtain a' where
    r: "loadNotesLoop nv a2 xs (if \<not> spent n then bal + nv (serializedNote n) else bal) =
        Inr (a', (if \<not> spent n then bal + nv (serializedNote n) else bal) +
                 sum_list (map (\<lambda>(h, n). nv (serializedNote n))
                               (filter (\<lambda>(h, n). \<not> spent n \<and> True) xs)))"
    and g: "transactions a' = transactions a2" "nullifierToNoteHash a' = nullifierToNoteHash a2"
      "accountsDb a' = accountsDb a2"
      "decryptedNotes a' = fold (\<lambda>(k, v). AList.update k v) xs (decryptedNotes a2)"
    by blast
  have "loadNotesLoop nv a (x # xs) bal =
      loadNotesLoop nv a2 xs (if \<not> spent n then bal + nv (serializedNote n) else bal)"
    using own s by (simp add: x Let_def)
  with r g f show ?case
    by (simp add: x)
qed

lemma unspentValue_frame:
  "decryptedNotes a' = decryptedNotes a \<Longrightarrow> unspentValue nv a' P = unspentValue nv a P"
  by (simp add: unspentValue_def)

text \<open>
  C9. For an account in which each index is a map, every note carries the id of the account
  and belongs to a stored transaction (with a sequence if it has a block hash), and the
  unconfirmed balance is the total value of the unspent notes: after \<open>save\<close>, \<open>load\<close> on a
  fresh account over the same store returns, with the same contents of the decrypted-note
  index, of the Nullifier Index and of the transaction table, and the same unconfirmed
  balance.
\<close>

theorem save_load_roundtrip:
  assumes "loadable a" and "getUnconfirmedBalance a = totalUnspent nv a"
  shows "\<exists>a'. load nv (newAccount (acc_id a) (accountsDb (save a))) = Inr a' \<and>
     map_of (decryptedNotes a') = map_of (decryptedNotes a) \<and>
     map_of (nullifierToNoteHash a') = map_of (nullifierToNoteHash a) \<and>
     map_of (transactions a') = map_of (transactions a) \<and>
     getUnconfirmedBalance a' = getUnconfirmedBalance a"
proof -
  define f where "f = newAccount (acc_id a) (accountsDb (save a))"
  define f1 where "f1 = f\<lparr>nullifierToNoteHash :=
             db_loadInto (storedNullifierToNoteHash (accountsDb f)) (nullifierToNoteHash f),
           transactions :=
             db_loadInto (storedTransactions (accountsDb f)) (transactions f)\<rparr>"
  from assms(1) have d: "distinct (map fst (decryptedNotes a))"
    "distinct (map fst (nullifierToNoteHash a))" "distinct (map fst (transactions a))"
    and own: "list_all (\<lambda>(h, n). accountId n = acc_id a \<and> seqOk a (transactionHash n))
        (decryptedNotes a)"
    by (simp_all add: loadable_def)
  have stored: "storedDecryptedNotes (accountsDb f1) = decryptedNotes a"
    "nullifierToNoteHash f1 = db_loadInto (nullifierToNoteHash a) []"
    "transactions f1 = db_loadInto (transactions a) []"
    "decryptedNotes f1 = []" "acc_id f1 = acc_id a"
    by (simp_all add: f1_def f_def newAccount_def save_def db_replaceDecryptedNotes_def
        db_replaceNullifierToNoteHash_def db_replaceTransactions_def)
  have tr: "map_of (transactions f1) = map_of (transactions a)"
    by (simp add: stored db_loadInto_distinct[OF d(3)])
  have ix: "map_of (nullifierToNoteHash f1) = map_of (nullifierToNoteHash a)"
    by (simp add: stored db_loadInto_distinct[OF d(2)])
  have "seqOk f1 = seqOk a"
    by (intro ext) (simp add: seqOk_def tr)
  with own have "list_all (\<lambda>(h, n). accountId n = acc_id f1 \<and> seqOk f1 (transactionHash n))
      (decryptedNotes a)"
    by (simp add: stored)
  from loadNotesLoop_result[OF this, of nv 0] obtain a1 where
    l: "loadNotesLoop nv f1 (decryptedNotes a) 0 = Inr (a1, totalUnspent nv a)"
    and g: "transactions a1 = transactions f1" "nullifierToNoteHash a1 = nullifierToNoteHash f1"
      "decryptedNotes a1 = fold (\<lambda>(k, v). AList.update k v) (decryptedNotes a) (decryptedNotes f1)"
    by (auto simp: totalUnspent_def unspentValue_def)
  have dn: "map_of (decryptedNotes a1) = map_of (decryptedNotes a)"
    using db_loadInto_distinct[OF d(1)] by (simp add: g(3) stored db_loadInto_def)
  have "load nv f = Inr (saveUnconfirmedBalance a1 (totalUnspent nv a))"
    using l by (simp add: load_def loadDecryptedNotesAndBalance_def f1_def[symmetric] stored)
  moreover have "getUnconfirmedBalance (saveUnconfirmedBalance a1 (totalUnspent nv a)) =
      getUnconfirmedBalance a"
    using assms(2)
    by (simp add: getUnconfirmedBalance_def saveUnconfirmedBalance_def
        db_getUnconfirmedBalance_def db_saveUnconfirmedBalance_def)
  ultimately show ?thesis
    using dn tr ix g by (simp add: f_def saveUnconfirmedBalance_def)
qed

theorem save_load_roundtrip_witness:
  "loadable acctMined \<and> getUnconfirmedBalance acctMined = totalUnspent sampleValue acctMined \<and>
   (\<exists>a'. load sampleValue (newAccount (acc_id acctMined) (accountsDb (save acctMined))) = Inr a' \<and>
      decryptedNotes a' = [(''n1'', note1)] \<and> nullifierToNoteHash a' = [(''x1'', ''n1'')] \<and>
      map_of (transactions a') = map_of (transactions acctMined) \<and>
      getUnconfirmedBalance a' = 5)"
proof -
  have l: "loadable acctMined"
    by (simp add: loadable_def acctMined_fields seqOk_def) (simp add: scenario_defs)
  have b: "getUnconfirmedBalance acctMined = totalUnspent sampleValue acctMined"
    by (simp add: totalUnspent_def unspentValue_def acctMined_fields) (simp add: scenario_defs)
  from save_load_roundtrip[OF l b] obtain a' where
    e: "load sampleValue (newAccount (acc_id acctMined) (accountsDb (save acctMined))) = Inr a'"
    and m: "map_of (transactions a') = map_of (transactions acctMined)"
    "getUnconfirmedBalance a' = getUnconfirmedBalance acctMined"
    by blast
  from e have "decryptedNotes a' = [(''n1'', note1)]" "nullifierToNoteHash a' = [(''x1'', ''n1'')]"
    by (auto simp: acctMined_def scenario_defs op_defs db_defs)
  with l b e m show ?thesis by (simp add: acctMined_fields)
qed

text \<open>
  \<open>load\<close> computes the balance again from the stored notes. After \<open>tx1\<close> is mined, its note is
  spent by \<open>tx2\<close> and \<open>tx1\<close> is deleted, the balance is 5 with no note left, and 0 after
  saving and loading.
\<close>

theorem reload_changes_balance:
  "deleteTransaction sampleValue acctSpent ''t1'' tx1 = Inr acctForgot \<and>
   decryptedNotes acctForgot = [] \<and>
   getUnconfirmedBalance acctForgot = 5 \<and>
   load sampleValue (newAccount (acc_id acctForgot) (accountsDb (save acctForgot))) =
     Inr acctReloaded \<and>
   getUnconfirmedBalance acctReloaded = 0"
  by (simp add: acctReloaded_def acctForgot_def acctSpent_def acctMined_def scenario_defs
      op_defs db_defs)

section \<open>The confirmed balance of an account with consistent indices\<close>

lemma subtractUnspent_sum:
  assumes "\<forall>h\<in>set hs. getDecryptedNote a h \<noteq> None"
  shows "subtractUnspent nv a hs c = Inr (c - sum_list (map (unspentValueOf nv a) hs))"
  using assms
  by (induction hs arbitrary: c)
     (auto simp: getDecryptedNote_def unspentValueOf_def unspentOf_def split: option.splits)

lemma unspentValue_as_sum:
  assumes "distinct (map fst al)"
  shows "sum_list (map (\<lambda>(h, n). nv (serializedNote n))
            (filter (\<lambda>(h, n). \<not> spent n \<and> P h n) al)) =
         (\<Sum>h\<in>{h. \<exists>n. map_of al h = Some n \<and> P h n}. unspentOf nv (map_of al h))"
  using assms
proof (induction al)
  case Nil
  then show ?case by simp
next
  case (Cons x al)
  obtain k v where x: "x = (k, v)" by (cases x)
  let ?S = "{h. \<exists>n. map_of al h = Some n \<and> P h n}"
  from Cons.prems have k: "map_of al k = None" and d: "distinct (map fst al)"
    by (simp_all add: x map_of_eq_None_iff)
  have fin: "finite ?S"
    by (rule finite_subset[of _ "dom (map_of al)"]) (auto simp: finite_dom_map_of)
  have kS: "k \<notin> ?S" using k by simp
  have S: "{h. \<exists>n. map_of (x # al) h = Some n \<and> P h n} = (if P k v then insert k ?S else ?S)"
    using k by (auto simp: x)
  have cong: "(\<Sum>h\<in>?S. unspentOf nv (map_of (x # al) h)) = (\<Sum>h\<in>?S. unspentOf nv (map_of al h))"
    by (rule sum.cong) (use k in \<open>auto simp: x\<close>)
  have head: "sum_list (map (\<lambda>(h, n). nv (serializedNote n))
            (filter (\<lambda>(h, n). \<not> spent n \<and> P h n) (x # al))) =
        (if P k v then unspentOf nv (Some v) else 0) +
        sum_list (map (\<lambda>(h, n). nv (serializedNote n))
            (filter (\<lambda>(h, n). \<not> spent n \<and> P h n) al))"
    by (simp add: x unspentOf_def)
  have "(\<Sum>h\<in>{h. \<exists>n. map_of (x # al) h = Some n \<and> P h n}. unspentOf nv (map_of (x # al) h)) =
        (if P k v then unspentOf nv (Some v) else 0) + (\<Sum>h\<in>?S. unspentOf nv (map_of al h))"
  proof (cases "P k v")
    case True
    have "(\<Sum>h\<in>insert k ?S. unspentOf nv (map_of (x # al) h)) =
        unspentOf nv (map_of (x # al) k) + (\<Sum>h\<in>?S. unspentOf nv (map_of (x # al) h))"
      by (rule sum.insert[OF fin kS])
    have "unspentOf nv (map_of (x # al) k) = unspentOf nv (Some v)" by (simp add: x)
    with True \<open>(\<Sum>h\<in>insert k ?S. unspentOf nv (map_of (x # al) h)) =
        unspentOf nv (map_of (x # al) k) + (\<Sum>h\<in>?S. unspentOf nv (map_of (x # al) h))\<close>
    show ?thesis
      by (simp only: S cong if_True)
  next
    case False
    then show ?thesis by (simp only: S cong if_False add_0)
  qed
  with head Cons.IH[OF d] show ?case by simp
qed

lemma scanSequences_sum:
  assumes "\<forall>i hs. map_of (noteHashesBySequence a) i = Some hs \<longrightarrow>
             (\<forall>h\<in>set hs. getDecryptedNote a h \<noteq> None)"
  shows "scanSequences nv a i e c =
     Inr (c - (\<Sum>j\<in>{i..<e}. sum_list (map (unspentValueOf nv a)
                  (case map_of (noteHashesBySequence a) j of None \<Rightarrow> [] | Some hs \<Rightarrow> hs))))"
  using assms
proof (induction nv a i e c rule: scanSequences.induct)
  case (1 nv a i e c)
  show ?case
  proof (cases "i < e")
    case False
    then show ?thesis by (subst scanSequences.simps) simp
  next
    case True
    then have range: "{i..<e} = insert i {i + 1..<e}" by auto
    show ?thesis
    proof (cases "map_of (noteHashesBySequence a) i")
      case None
      with True "1.IH"(1)[OF True None "1.prems"] show ?thesis
        by (subst scanSequences.simps) (simp add: range)
    next
      case (Some hs)
      with "1.prems" have "\<forall>h\<in>set hs. getDecryptedNote a h \<noteq> None" by blast
      from subtractUnspent_sum[OF this, of nv c]
      have s: "subtractUnspent nv a hs c = Inr (c - sum_list (map (unspentValueOf nv a) hs))" .
      from True Some s "1.IH"(2)[OF True Some s "1.prems"] show ?thesis
        by (subst scanSequences.simps) (simp add: range)
    qed
  qed
qed

text \<open>
  While bucket \<open>i\<close> holds exactly the notes whose owning transaction has sequence \<open>i\<close>,
  \<open>getBalance\<close> returns the difference that the specification words: the two differ only
  through stale entries of the Sequence Index.
\<close>

lemma getBalance_consistent:
  assumes "sequenceIndexConsistent a"
  shows "getBalance nv a s e = Inr (getUnconfirmedBalance a, specConfirmed nv a s e)"
proof -
  let ?f = "unspentValueOf nv a"
  let ?bucket = "\<lambda>j. case map_of (noteHashesBySequence a) j of None \<Rightarrow> [] | Some hs \<Rightarrow> hs"
  let ?S = "\<lambda>j. {h. \<exists>n. getDecryptedNote a h = Some n \<and> owningSequence a n = Some j}"
  let ?P = "\<lambda>h n. case owningSequence a n of None \<Rightarrow> False | Some q \<Rightarrow> s \<le> q \<and> q < e"
  from assms have dn: "distinct (map fst (decryptedNotes a))"
    and dnc: "distinct (nonChainNoteHashes a)"
    and nc: "\<forall>h\<in>set (nonChainNoteHashes a). getDecryptedNote a h \<noteq> None"
    and db: "\<And>i hs. map_of (noteHashesBySequence a) i = Some hs \<Longrightarrow> distinct hs"
    and iff: "\<And>i h. (\<exists>hs. map_of (noteHashesBySequence a) i = Some hs \<and> h \<in> set hs) \<longleftrightarrow>
             (\<exists>n. getDecryptedNote a h = Some n \<and> owningSequence a n = Some i)"
    unfolding sequenceIndexConsistent_def by blast+
  have bucket_set: "set (?bucket j) = ?S j" for j
    using iff[of j] by (cases "map_of (noteHashesBySequence a) j") auto
  have bucket_distinct: "distinct (?bucket j)" for j
    using db[of j] by (cases "map_of (noteHashesBySequence a) j") auto
  have known: "\<forall>i hs. map_of (noteHashesBySequence a) i = Some hs \<longrightarrow>
             (\<forall>h\<in>set hs. getDecryptedNote a h \<noteq> None)"
    using iff by blast
  have fin: "finite (?S j)" for j
  proof -
    have "finite (set (?bucket j))" by (rule finite_set)
    then show ?thesis by (simp only: bucket_set)
  qed
  \<comment> \<open>the scan of the buckets\<close>
  have "(\<Sum>j\<in>{s..<e}. sum_list (map ?f (?bucket j))) = (\<Sum>j\<in>{s..<e}. sum ?f (?S j))"
    by (rule sum.cong)
       (simp_all add: sum_list_distinct_conv_sum_set[OF bucket_distinct] bucket_set)
  also have "\<dots> = sum ?f (\<Union>j\<in>{s..<e}. ?S j)"
    by (rule sum.UNION_disjoint[symmetric]) (auto simp: fin)
  also have "(\<Union>j\<in>{s..<e}. ?S j) = {h. \<exists>n. map_of (decryptedNotes a) h = Some n \<and> ?P h n}"
    by (auto simp: getDecryptedNote_def split: option.splits)
  also have "sum ?f \<dots> = unspentValue nv a ?P"
  proof -
    have "unspentValue nv a ?P =
        (\<Sum>h\<in>{h. \<exists>n. map_of (decryptedNotes a) h = Some n \<and> ?P h n}.
           unspentOf nv (map_of (decryptedNotes a) h))"
      unfolding unspentValue_def by (rule unspentValue_as_sum[OF dn])
    then show ?thesis by (simp add: unspentValueOf_def getDecryptedNote_def)
  qed
  finally have sumeq: "(\<Sum>j\<in>{s..<e}. sum_list (map ?f (?bucket j))) = unspentValue nv a ?P" .
  have scan: "scanSequences nv a s e (getUnconfirmedBalance a) =
      Inr (getUnconfirmedBalance a - unspentValue nv a ?P)"
    by (simp only: scanSequences_sum[OF known] sumeq)
  \<comment> \<open>the scan of the Non-chain Note Set\<close>
  have "{h. \<exists>n. map_of (decryptedNotes a) h = Some n \<and> h \<in> set (nonChainNoteHashes a)} =
      set (nonChainNoteHashes a)"
    using nc by (auto simp: getDecryptedNote_def)
  moreover have "unspentValue nv a (\<lambda>h n. h \<in> set (nonChainNoteHashes a)) =
      (\<Sum>h\<in>{h. \<exists>n. map_of (decryptedNotes a) h = Some n \<and> h \<in> set (nonChainNoteHashes a)}.
         unspentOf nv (map_of (decryptedNotes a) h))"
    unfolding unspentValue_def by (rule unspentValue_as_sum[OF dn])
  ultimately have "unspentValue nv a (\<lambda>h n. h \<in> set (nonChainNoteHashes a)) =
      sum ?f (set (nonChainNoteHashes a))"
    by (simp add: unspentValueOf_def getDecryptedNote_def)
  then have non: "subtractUnspent nv a (nonChainNoteHashes a) c =
      Inr (c - unspentValue nv a (\<lambda>h n. h \<in> set (nonChainNoteHashes a)))" for c
    by (simp add: subtractUnspent_sum[OF nc] sum_list_distinct_conv_sum_set[OF dnc])
  show ?thesis
    by (simp add: getBalance_def Let_def scan non specConfirmed_def del: scanSequences.simps)
qed

lemma sequenceIndexConsistent_acctMined: "sequenceIndexConsistent acctMined"
  by (auto simp: sequenceIndexConsistent_def acctMined_fields getDecryptedNote_def
      owningSequence_def note1_def split: if_splits)

section \<open>Nullifiers that resolve to no note, in the two operations\<close>







end
